theory Spec2Isabelle
  imports Complex_Main "HOL-Library.Multiset" "HOL-Library.Sublist" "HOL-Library.AList"
begin

section \<open>Volunteer hours tracker: the spreadsheet sync and the record store\<close>

text \<open>
  The development embeds two source files: the sync module (\<^verbatim>\<open>googleSheetsAPI.js\<close>,
  functions \<^verbatim>\<open>updateWorksheet\<close> and \<^verbatim>\<open>syncToGoogleSheets\<close>) and the request handlers of
  \<^verbatim>\<open>server.js\<close>.

  A JavaScript string is a sequence of UTF-16 code units. The model keeps the strings
  whose code units are below 256, one unit per character of \<^typ>\<open>string\<close>, and writes the
  character classes of the source (\<^verbatim>\<open>[^a-zA-Z0-9]\<close>, \<^verbatim>\<open>toLowerCase\<close>, white space)
  out on the codes.

  Volunteers and events are records with the fields the data model gives them; the
  handlers that store what a request body brings work on JSON objects.
\<close>

subsection \<open>Strings\<close>

definition isAlnum :: "char \<Rightarrow> bool" where
  "isAlnum c =
     (let n = (of_char c :: nat)
      in (48 \<le> n \<and> n \<le> 57) \<or> (65 \<le> n \<and> n \<le> 90) \<or> (97 \<le> n \<and> n \<le> 122))"

text \<open>\<^verbatim>\<open>name.replace(/[^a-zA-Z0-9]/g, ' ')\<close>\<close>

definition replaceNonAlnum :: "string \<Rightarrow> string" where
  "replaceNonAlnum s = map (\<lambda>c. if isAlnum c then c else CHR '' '') s"

text \<open>
  \<^verbatim>\<open>`Volunteer - ${volunteer.name.replace(/[^a-zA-Z0-9]/g, ' ')}`.substring(0, 30)\<close>:
  the \<^verbatim>\<open>substring\<close> call is applied to the whole template string.
\<close>

definition volunteerSheetName :: "string \<Rightarrow> string" where
  "volunteerSheetName name = take 30 (''Volunteer - '' @ replaceNonAlnum name)"

text \<open>
  The title rule as the specification words it, read in the order it lists the steps:
  replace the non-alphanumeric characters of the name, truncate to 30 characters, prefix.
\<close>

definition spec_sheetTitle :: "string \<Rightarrow> string" where
  "spec_sheetTitle name = ''Volunteer - '' @ take 30 (replaceNonAlnum name)"

subsection \<open>Numbers: \<^verbatim>\<open>parseFloat\<close>, addition, \<^verbatim>\<open>toFixed(2)\<close>\<close>

text \<open>
  A JavaScript number is \<open>NaN\<close>, an infinity or a finite value. Finite values are kept as
  exact rationals: the binary rounding of doubles is not modelled, so the model agrees
  with the program on every \<open>NaN\<close> path and wherever the parsed decimals and their sum
  are exactly representable (as for 2 + 1.5). \<^verbatim>\<open>toFixed\<close> is modelled for magnitudes
  below \<open>10^21\<close>, where JavaScript prints fixed notation. A numeral beyond the range of
  the doubles, an infinity in the program, is finite here.
\<close>

datatype jsnum = NaN | PosInf | NegInf | Fin rat

fun jsadd :: "jsnum \<Rightarrow> jsnum \<Rightarrow> jsnum" where
  "jsadd NaN _ = NaN"
| "jsadd _ NaN = NaN"
| "jsadd PosInf NegInf = NaN"
| "jsadd NegInf PosInf = NaN"
| "jsadd PosInf _ = PosInf"
| "jsadd _ PosInf = PosInf"
| "jsadd NegInf _ = NegInf"
| "jsadd _ NegInf = NegInf"
| "jsadd (Fin a) (Fin b) = Fin (a + b)"

text \<open>
  White space and line terminators below 256: tab, line feed, vertical tab, form feed,
  carriage return, space and the no-break space.
\<close>

definition isWhiteSpace :: "char \<Rightarrow> bool" where
  "isWhiteSpace c = ((of_char c :: nat) \<in> {9, 10, 11, 12, 13, 32, 160})"

definition isDigit :: "char \<Rightarrow> bool" where
  "isDigit c = (48 \<le> (of_char c :: nat) \<and> (of_char c :: nat) \<le> 57)"

definition digitsValue :: "string \<Rightarrow> nat" where
  "digitsValue ds = foldl (\<lambda>n c. 10 * n + (of_char c - 48)) 0 ds"

text \<open>The value of an \<open>ExponentPart\<close> at the head of the string, 0 when there is none.\<close>

definition exponentPart :: "string \<Rightarrow> int" where
  "exponentPart s =
     (case s of
        [] \<Rightarrow> 0
      | e # r \<Rightarrow>
          if e = CHR ''e'' \<or> e = CHR ''E'' then
            (case r of
               [] \<Rightarrow> 0
             | sg # r' \<Rightarrow>
                 if sg = CHR ''+'' then
                   (if takeWhile isDigit r' = [] then 0
                    else int (digitsValue (takeWhile isDigit r')))
                 else if sg = CHR ''-'' then
                   (if takeWhile isDigit r' = [] then 0
                    else - int (digitsValue (takeWhile isDigit r')))
                 else if takeWhile isDigit r = [] then 0
                 else int (digitsValue (takeWhile isDigit r)))
          else 0)"

text \<open>
  \<^verbatim>\<open>parseFloat\<close> on a string: leading white space is skipped, then the longest prefix
  that is a \<open>StrDecimalLiteral\<close> (sign, \<open>Infinity\<close>, digits, fraction, exponent) is read;
  without such a prefix the result is \<open>NaN\<close>.
\<close>

definition parseFloat :: "string \<Rightarrow> jsnum" where
  "parseFloat inputString =
     (let trimmed = dropWhile isWhiteSpace inputString;
          neg = (case trimmed of [] \<Rightarrow> False | c # _ \<Rightarrow> c = CHR ''-'');
          u = (case trimmed of
                 [] \<Rightarrow> []
               | c # r \<Rightarrow> if c = CHR ''+'' \<or> c = CHR ''-'' then r else trimmed)
      in if prefix ''Infinity'' u then (if neg then NegInf else PosInf)
         else
           (let ip = takeWhile isDigit u;
                r1 = dropWhile isDigit u;
                fp = (case r1 of
                        [] \<Rightarrow> []
                      | d # r \<Rightarrow> if d = CHR ''.'' then takeWhile isDigit r else []);
                r2 = (case r1 of
                        [] \<Rightarrow> []
                      | d # r \<Rightarrow> if d = CHR ''.'' then dropWhile isDigit r else r1)
            in if ip = [] \<and> fp = [] then NaN
               else
                 (let m = (of_nat (digitsValue ip) :: rat)
                            + of_nat (digitsValue fp) / 10 ^ length fp;
                      ex = exponentPart r2;
                      x = (if 0 \<le> ex then m * 10 ^ nat ex else m / 10 ^ nat (- ex))
                  in Fin (if neg then - x else x))))"

definition digitChar :: "nat \<Rightarrow> char" where
  "digitChar d = ''0123456789'' ! d"

fun showNat :: "nat \<Rightarrow> string" where
  "showNat n = (if n < 10 then [digitChar n] else showNat (n div 10) @ [digitChar (n mod 10)])"

declare showNat.simps [simp del]

text \<open>
  \<^verbatim>\<open>x.toFixed(2)\<close>: the integer \<open>n\<close> nearest to \<open>100 * |x|\<close> (the larger one on a tie),
  printed with a decimal point before its last two digits, after a minus sign when
  \<open>x < 0\<close>; a value that is not finite prints as its name.
\<close>

definition toFixed2 :: "jsnum \<Rightarrow> string" where
  "toFixed2 x =
     (case x of
        NaN \<Rightarrow> ''NaN''
      | PosInf \<Rightarrow> ''Infinity''
      | NegInf \<Rightarrow> ''-Infinity''
      | Fin r \<Rightarrow>
          (let n = nat \<lfloor>\<bar>r\<bar> * 100 + 1 / 2\<rfloor>;
               m = showNat n;
               m' = replicate (3 - length m) (CHR ''0'') @ m;
               k = length m'
           in (if r < 0 then ''-'' else []) @ take (k - 2) m' @ ''.'' @ drop (k - 2) m'))"

subsection \<open>The data model\<close>

text \<open>
  Volunteers and events carry the fields the sync reads, typed as the data model gives
  them; \<open>hours\<close> may be missing. \<open>createdAt\<close> is never read by the sync.
\<close>

record volunteer =
  id :: string
  name :: string
  phone :: string
  email :: string

record event =
  id :: string
  volunteerId :: string
  name :: string
  location :: string
  date :: string
  hours :: "string option"

text \<open>A worksheet cell: a number (the display IDs), a string, or \<^verbatim>\<open>undefined\<close>.\<close>

datatype cell = NumCell nat | StrCell string | UndefCell

text \<open>
  Two functions of the JavaScript runtime are parameters of the model: the collation
  \<^verbatim>\<open>String.prototype.localeCompare\<close> and the date parser behind \<^verbatim>\<open>new Date(string)\<close>,
  which yields a time value in milliseconds or an invalid date (\<open>None\<close>).
\<close>

record runtime =
  localeCompare :: "string \<Rightarrow> string \<Rightarrow> int"
  dateParse :: "string \<Rightarrow> int option"

subsection \<open>\<^verbatim>\<open>Array.prototype.sort\<close>\<close>

text \<open>
  With a consistent comparator the language fixes the result of the sort: the stable
  arrangement in ascending order. \<open>sortBy\<close> is that arrangement, by stable insertion
  (\<open>x\<close> goes before \<open>y\<close> unless the comparator is positive on \<open>(x, y)\<close>); it models the
  sort by names, whose comparator is the collation of the runtime. Where the comparator
  is the order of a key, \<open>sortBy\<close> and the algorithm of the engine below give the same
  list (lemma \<open>sortBy_engineSort\<close>).
\<close>

fun insertBy :: "('a \<Rightarrow> 'a \<Rightarrow> int) \<Rightarrow> 'a \<Rightarrow> 'a list \<Rightarrow> 'a list" where
  "insertBy cmp x [] = [x]"
| "insertBy cmp x (y # ys) = (if cmp x y \<le> 0 then x # y # ys else y # insertBy cmp x ys)"

definition sortBy :: "('a \<Rightarrow> 'a \<Rightarrow> int) \<Rightarrow> 'a list \<Rightarrow> 'a list" where
  "sortBy cmp xs = foldr (insertBy cmp) xs []"

text \<open>
  The comparator of the sort by dates is not consistent when a date does not parse: it is
  \<open>NaN\<close>, read as 0, against every other date. The language leaves the order open there,
  and the result is what the algorithm of the engine makes of the comparisons. \<open>engineSort\<close>
  is the algorithm of V8, the engine of Node.js (the README asks for version 14 or
  higher), on an array shorter than 64 elements.
  It takes the longest run at the head of the array: strictly descending if the second
  element compares below the first, and then reversed, ascending otherwise
  (\<^verbatim>\<open>CountAndMakeRun\<close>). The elements after the run are inserted into it one by one, each
  at the place a binary search gives, after the elements it does not compare below
  (\<^verbatim>\<open>BinaryInsertionSort\<close>).

  On 64 elements or more the engine cuts the array into runs and merges them. Where the
  comparator orders the elements by a key, that gives the stable arrangement by the key,
  as \<open>engineSort\<close> does at every length (lemma \<open>engineSort_sort_key\<close>); with another
  comparator the orders can differ, and the theorems say what the order is only where
  the comparator orders by a key, or on shorter arrays.
\<close>

text \<open>The binary search of an insertion: the place of \<open>pivot\<close> in \<open>xs\<close> between \<open>left\<close> and \<open>right\<close>.\<close>

function bsearch :: "('a \<Rightarrow> 'a \<Rightarrow> int) \<Rightarrow> 'a \<Rightarrow> 'a list \<Rightarrow> nat \<Rightarrow> nat \<Rightarrow> nat" where
  "bsearch cmp pivot xs left right =
     (if left < right
      then (let mid = left + (right - left) div 2;
                order = cmp pivot (xs ! mid)
            in if order < 0 then bsearch cmp pivot xs left mid
               else bsearch cmp pivot xs (mid + 1) right)
      else left)"
  by pat_completeness auto
termination
  by (relation "measure (\<lambda>(cmp, pivot, xs, left, right). right - left)") auto

declare bsearch.simps [simp del]

definition binaryInsert :: "('a \<Rightarrow> 'a \<Rightarrow> int) \<Rightarrow> 'a list \<Rightarrow> 'a \<Rightarrow> 'a list" where
  "binaryInsert cmp work pivot =
     (let left = bsearch cmp pivot work 0 (length work)
      in take left work @ pivot # drop left work)"

text \<open>How far the run goes on after its second element.\<close>

fun runTail :: "('a \<Rightarrow> 'a \<Rightarrow> int) \<Rightarrow> bool \<Rightarrow> 'a \<Rightarrow> 'a list \<Rightarrow> nat" where
  "runTail cmp isDescending previousElement [] = 0"
| "runTail cmp isDescending previousElement (currentElement # rest) =
     (let order = cmp currentElement previousElement
      in if (if isDescending then order \<ge> 0 else order < 0) then 0
         else Suc (runTail cmp isDescending currentElement rest))"

definition engineSort :: "('a \<Rightarrow> 'a \<Rightarrow> int) \<Rightarrow> 'a list \<Rightarrow> 'a list" where
  "engineSort cmp xs =
     (case xs of
        elementHigh # elementLow # rest \<Rightarrow>
          (let isDescending = (cmp elementLow elementHigh < 0);
               runLength = 2 + runTail cmp isDescending elementLow rest;
               run = take runLength xs
           in foldl (binaryInsert cmp) (if isDescending then rev run else run)
                (drop runLength xs))
      | _ \<Rightarrow> xs)"

subsection \<open>\<^verbatim>\<open>syncToGoogleSheets\<close>: the derived views\<close>

text \<open>
  \<^verbatim>\<open>toLowerCase\<close> below 256: the letters \<open>A-Z\<close> and the accented capitals at 192 to 222,
  but for the multiplication sign at 215, move up by 32.
\<close>

definition isUpper :: "char \<Rightarrow> bool" where
  "isUpper c =
     (let n = (of_char c :: nat)
      in (65 \<le> n \<and> n \<le> 90) \<or> (192 \<le> n \<and> n \<le> 222 \<and> n \<noteq> 215))"

definition toLowerCase :: "string \<Rightarrow> string" where
  "toLowerCase s = map (\<lambda>c. if isUpper c then char_of ((of_char c :: nat) + 32) else c) s"

text \<open>\<^verbatim>\<open>(a, b) => a.name.toLowerCase().localeCompare(b.name.toLowerCase())\<close>\<close>

definition compareNames :: "runtime \<Rightarrow> volunteer \<Rightarrow> volunteer \<Rightarrow> int" where
  "compareNames rt a b =
     localeCompare rt (toLowerCase (volunteer.name a)) (toLowerCase (volunteer.name b))"

definition sortedVolunteers :: "runtime \<Rightarrow> volunteer list \<Rightarrow> volunteer list" where
  "sortedVolunteers rt volunteers = sortBy (compareNames rt) volunteers"

definition volunteersHeader :: "cell list" where
  "volunteersHeader =
     [StrCell ''ID'', StrCell ''Name'', StrCell ''Phone'', StrCell ''Email'',
      StrCell ''Total Hours'']"

text \<open>\<^verbatim>\<open>events.filter(event => event.volunteerId === volunteer.id)\<close>\<close>

definition volunteerEvents :: "event list \<Rightarrow> volunteer \<Rightarrow> event list" where
  "volunteerEvents events v = filter (\<lambda>e. volunteerId e = volunteer.id v) events"

text \<open>\<^verbatim>\<open>parseFloat(event.hours || 0)\<close>: a missing or empty \<open>hours\<close> is falsy and gives 0.\<close>

definition hoursNumber :: "string option \<Rightarrow> jsnum" where
  "hoursNumber h =
     (case h of None \<Rightarrow> Fin 0 | Some s \<Rightarrow> if s = [] then Fin 0 else parseFloat s)"

definition totalHours :: "event list \<Rightarrow> volunteer \<Rightarrow> jsnum" where
  "totalHours events v =
     foldl (\<lambda>sum e. jsadd sum (hoursNumber (hours e))) (Fin 0) (volunteerEvents events v)"

definition volunteerRow :: "event list \<Rightarrow> nat \<Rightarrow> volunteer \<Rightarrow> cell list" where
  "volunteerRow events index v =
     [NumCell (index + 1), StrCell (volunteer.name v), StrCell (phone v), StrCell (email v),
      StrCell (toFixed2 (totalHours events v))]"

definition volunteersData :: "runtime \<Rightarrow> volunteer list \<Rightarrow> event list \<Rightarrow> cell list list" where
  "volunteersData rt volunteers events =
     map (\<lambda>(index, v). volunteerRow events index v) (enumerate 0 (sortedVolunteers rt volunteers))"

text \<open>
  \<^verbatim>\<open>(a, b) => new Date(a.date) - new Date(b.date)\<close>: the difference of two time values,
  \<open>NaN\<close> when a date is invalid, which the sort reads as 0. No date is checked before
  the sort, here or where the events are stored.
\<close>

definition compareDates :: "runtime \<Rightarrow> event \<Rightarrow> event \<Rightarrow> int" where
  "compareDates rt a b =
     (case (dateParse rt (date a), dateParse rt (date b)) of
        (Some x, Some y) \<Rightarrow> x - y
      | _ \<Rightarrow> 0)"

definition sortedEvents :: "runtime \<Rightarrow> event list \<Rightarrow> volunteer \<Rightarrow> event list" where
  "sortedEvents rt events v = engineSort (compareDates rt) (volunteerEvents events v)"

definition eventsHeader :: "cell list" where
  "eventsHeader =
     [StrCell ''ID'', StrCell ''Event'', StrCell ''Location'', StrCell ''Date'', StrCell ''Hours'']"

definition eventRow :: "nat \<Rightarrow> event \<Rightarrow> cell list" where
  "eventRow eventIndex e =
     [NumCell (eventIndex + 1), StrCell (event.name e), StrCell (location e), StrCell (date e),
      (case hours e of None \<Rightarrow> UndefCell | Some h \<Rightarrow> StrCell h)]"

definition volunteerEventsData :: "runtime \<Rightarrow> event list \<Rightarrow> volunteer \<Rightarrow> cell list list" where
  "volunteerEventsData rt events v =
     map (\<lambda>(eventIndex, e). eventRow eventIndex e) (enumerate 0 (sortedEvents rt events v))"

text \<open>
  One pass of the loop over the sorted volunteers: the worksheet (title, header, rows) it
  writes, or nothing for a volunteer without events.
\<close>

definition individualSheet ::
  "runtime \<Rightarrow> event list \<Rightarrow> volunteer \<Rightarrow> (string \<times> cell list \<times> cell list list) option" where
  "individualSheet rt events v =
     (if length (volunteerEvents events v) > 0
      then Some (volunteerSheetName (volunteer.name v), eventsHeader,
                 volunteerEventsData rt events v)
      else None)"

subsection \<open>The remote spreadsheet\<close>

text \<open>
  The requests the adapter sends, each with the spreadsheet id first:
  \<^verbatim>\<open>spreadsheets.get\<close>, \<^verbatim>\<open>spreadsheets.batchUpdate\<close> with one \<^verbatim>\<open>addSheet\<close>,
  \<^verbatim>\<open>spreadsheets.values.clear\<close> and \<^verbatim>\<open>spreadsheets.values.update\<close> (range and rows).
\<close>

datatype request =
    GetSpreadsheet string
  | AddSheet string string
  | ClearValues string string
  | UpdateValues string string "cell list list"

text \<open>
  The environment of a sync: the titles of the worksheets that exist, the log of the
  requests sent so far, which request fails (\<open>faults r k\<close> is the error message of the
  \<open>k\<close>-th request ever sent, if it fails), whether building the client fails, and how
  many clients have been built.
\<close>

record remote =
  titles :: "string list"
  calls :: "request list"
  faults :: "nat \<Rightarrow> string option"
  clientError :: "string option"
  clientsBuilt :: nat

text \<open>
  Code that may throw and talks to the remote: it returns the thrown error's message
  (\<open>Inl\<close>) or a value, and the remote as it leaves it.
\<close>

type_synonym 'a action = "remote \<Rightarrow> (string + 'a) \<times> remote"

definition ret :: "'a \<Rightarrow> 'a action" where
  "ret x r = (Inr x, r)"

definition throw :: "string \<Rightarrow> 'a action" where
  "throw e r = (Inl e, r)"

definition andThen :: "'a action \<Rightarrow> ('a \<Rightarrow> 'b action) \<Rightarrow> 'b action" where
  "andThen m f r = (case m r of (Inl e, r') \<Rightarrow> (Inl e, r') | (Inr x, r') \<Rightarrow> f x r')"

definition send :: "request \<Rightarrow> unit action" where
  "send q r =
     ((case faults r (length (calls r)) of Some e \<Rightarrow> Inl e | None \<Rightarrow> Inr ()),
      r\<lparr>calls := calls r @ [q]\<rparr>)"

definition addSheet :: "string \<Rightarrow> string \<Rightarrow> unit action" where
  "addSheet spreadsheetId sheetTitle =
     andThen (send (AddSheet spreadsheetId sheetTitle))
       (\<lambda>_ r. (Inr (), r\<lparr>titles := titles r @ [sheetTitle]\<rparr>))"

definition updateWorksheet ::
  "string \<Rightarrow> string \<Rightarrow> cell list \<Rightarrow> cell list list \<Rightarrow> unit action" where
  "updateWorksheet spreadsheetId sheetTitle headerRow data =
     andThen (send (GetSpreadsheet spreadsheetId)) (\<lambda>_ r.
       (let existingSheets = titles r;
            sheetExists = (sheetTitle \<in> set existingSheets)
        in andThen (if \<not> sheetExists then addSheet spreadsheetId sheetTitle else ret ()) (\<lambda>_.
           andThen (send (ClearValues spreadsheetId sheetTitle)) (\<lambda>_.
           send (UpdateValues spreadsheetId (sheetTitle @ ''!A1'') (headerRow # data))))) r)"

subsection \<open>\<^verbatim>\<open>syncToGoogleSheets\<close>\<close>

record credentials =
  client_email :: "string option"

record sheetsConfig =
  spreadsheetId :: "string option"
  credentials :: "credentials option"

definition createSheetsClient :: "credentials \<Rightarrow> unit action" where
  "createSheetsClient cr r =
     ((case clientError r of Some e \<Rightarrow> Inl e | None \<Rightarrow> Inr ()),
      r\<lparr>clientsBuilt := clientsBuilt r + 1\<rparr>)"

text \<open>The loop over the sorted volunteers.\<close>

fun individualSheets :: "runtime \<Rightarrow> string \<Rightarrow> event list \<Rightarrow> volunteer list \<Rightarrow> unit action" where
  "individualSheets rt sid events [] = ret ()"
| "individualSheets rt sid events (v # vs) =
     (case individualSheet rt events v of
        None \<Rightarrow> individualSheets rt sid events vs
      | Some (sheetName, header, eventsData) \<Rightarrow>
          andThen (updateWorksheet sid sheetName header eventsData)
            (\<lambda>_. individualSheets rt sid events vs))"

definition incompleteMessage :: string where
  "incompleteMessage = ''Google Sheets configuration is incomplete''"

text \<open>The body of the \<^verbatim>\<open>try\<close> block.\<close>

definition syncBody ::
  "runtime \<Rightarrow> sheetsConfig option \<Rightarrow> volunteer list \<Rightarrow> event list \<Rightarrow> (nat \<times> nat) action" where
  "syncBody rt cfg volunteers events =
     (case cfg of
        None \<Rightarrow> throw incompleteMessage
      | Some c \<Rightarrow>
          (case spreadsheetId c of
             None \<Rightarrow> throw incompleteMessage
           | Some sid \<Rightarrow>
               if sid = [] then throw incompleteMessage
               else
                 (case credentials c of
                    None \<Rightarrow> throw incompleteMessage
                  | Some cr \<Rightarrow>
                      andThen (createSheetsClient cr) (\<lambda>_.
                      andThen (updateWorksheet sid ''Volunteers'' volunteersHeader
                                 (volunteersData rt volunteers events)) (\<lambda>_.
                      andThen (individualSheets rt sid events (sortedVolunteers rt volunteers)) (\<lambda>_.
                      ret (length volunteers, length events)))))))"

datatype syncResult = Success nat nat | Failure string

text \<open>The \<^verbatim>\<open>catch\<close> turns every thrown error into a result.\<close>

definition syncToGoogleSheets ::
  "runtime \<Rightarrow> sheetsConfig option \<Rightarrow> volunteer list \<Rightarrow> event list \<Rightarrow> remote
     \<Rightarrow> syncResult \<times> remote" where
  "syncToGoogleSheets rt cfg volunteers events r =
     (case syncBody rt cfg volunteers events r of
        (Inl e, r') \<Rightarrow> (Failure e, r')
      | (Inr (volunteersCount, eventsCount), r') \<Rightarrow> (Success volunteersCount eventsCount, r'))"

subsection \<open>The request handlers of \<^verbatim>\<open>server.js\<close>\<close>

text \<open>
  Request and response bodies are JSON values. An object is the list of its entries; a
  property is read with \<open>getProp\<close> (absent: \<^verbatim>\<open>undefined\<close>) and written with
  \<open>AList.update\<close>, which replaces the value of a key the object has and adds any other key
  at the end, as assignment does for keys that are not array indices. The handlers are
  functions of the arrays they read from the store and return the arrays they write back;
  file reads and writes are taken to succeed.
\<close>

datatype json =
    JNull
  | JBool bool
  | JNum rat
  | JStr string
  | JArr "json list"
  | JObj "(string \<times> json) list"

type_synonym obj = "(string \<times> json) list"

datatype response = Response nat json

definition getProp :: "obj \<Rightarrow> string \<Rightarrow> json option" where
  "getProp ob k = map_of ob k"

text \<open>Property access on any value but \<^verbatim>\<open>null\<close> (where it throws).\<close>

definition propOf :: "json \<Rightarrow> string \<Rightarrow> json option" where
  "propOf b k = (case b of JObj ob \<Rightarrow> getProp ob k | _ \<Rightarrow> None)"

definition truthy :: "json option \<Rightarrow> bool" where
  "truthy x =
     (case x of
        None \<Rightarrow> False
      | Some JNull \<Rightarrow> False
      | Some (JBool b) \<Rightarrow> b
      | Some (JNum n) \<Rightarrow> n \<noteq> 0
      | Some (JStr s) \<Rightarrow> s \<noteq> []
      | Some _ \<Rightarrow> True)"

text \<open>
  The own enumerable properties an object spread \<^verbatim>\<open>...body\<close> copies: the entries of an
  object, the indexed elements of an array, the indexed characters of a string, and
  nothing for \<^verbatim>\<open>null\<close>, a boolean or a number. The new object keeps its keys in the
  order in which they were first written; the program lists the keys that are array
  indices before the others, so the two orders agree when the body has no such key.
\<close>

definition ownEntries :: "json \<Rightarrow> (string \<times> json) list" where
  "ownEntries b =
     (case b of
        JObj ob \<Rightarrow> ob
      | JArr xs \<Rightarrow> zip (map showNat [0..<length xs]) xs
      | JStr s \<Rightarrow> zip (map showNat [0..<length s]) (map (\<lambda>c. JStr [c]) s)
      | _ \<Rightarrow> [])"

definition spreadInto :: "obj \<Rightarrow> json \<Rightarrow> obj" where
  "spreadInto target b = foldl (\<lambda>ob (k, v). AList.update k v ob) target (ownEntries b)"

text \<open>
  \<^verbatim>\<open>POST /api/volunteers\<close>. \<open>newId\<close> is the value of \<^verbatim>\<open>generateId()\<close>, \<open>now\<close> the value of
  \<^verbatim>\<open>new Date().toISOString()\<close>, and \<open>body\<close> the parsed request body (\<open>None\<close> when
  \<^verbatim>\<open>JSON.parse\<close> throws; an empty request body parses to the empty object).
\<close>

definition newVolunteer :: "string \<Rightarrow> string \<Rightarrow> json \<Rightarrow> obj" where
  "newVolunteer newId now b =
     AList.update ''createdAt'' (JStr now) (spreadInto [(''id'', JStr newId)] b)"

definition postVolunteers ::
  "string \<Rightarrow> string \<Rightarrow> json option \<Rightarrow> obj list \<Rightarrow> response \<times> obj list" where
  "postVolunteers newId now body volunteers =
     (case body of
        None \<Rightarrow> (Response 400 (JObj [(''error'', JStr ''Invalid request body'')]), volunteers)
      | Some b \<Rightarrow>
          (Response 201 (JObj (newVolunteer newId now b)),
           volunteers @ [newVolunteer newId now b]))"

text \<open>
  \<^verbatim>\<open>POST /api/events\<close>. \<open>dateNow\<close> and \<open>now\<close> are the two readings of the clock. Reading
  \<^verbatim>\<open>body.date\<close> of \<^verbatim>\<open>null\<close> throws inside the \<^verbatim>\<open>try\<close>, before anything is stored.
\<close>

definition newEvent :: "string \<Rightarrow> string \<Rightarrow> string \<Rightarrow> json \<Rightarrow> obj" where
  "newEvent newId dateNow now b =
     AList.update ''createdAt'' (JStr now)
       (AList.update ''date''
          (if truthy (propOf b ''date'') then the (propOf b ''date'') else JStr dateNow)
          (spreadInto [(''id'', JStr newId)] b))"

definition postEvents ::
  "string \<Rightarrow> string \<Rightarrow> string \<Rightarrow> json option \<Rightarrow> obj list \<Rightarrow> response \<times> obj list" where
  "postEvents newId dateNow now body events =
     (case body of
        None \<Rightarrow> (Response 400 (JObj [(''error'', JStr ''Invalid request body'')]), events)
      | Some b \<Rightarrow>
          if b = JNull
          then (Response 400 (JObj [(''error'', JStr ''Invalid request body'')]), events)
          else (Response 201 (JObj (newEvent newId dateNow now b)),
                events @ [newEvent newId dateNow now b]))"

text \<open>\<^verbatim>\<open>Array.prototype.findIndex\<close>, with \<open>None\<close> for \<open>-1\<close>.\<close>

fun findIndex :: "('a \<Rightarrow> bool) \<Rightarrow> 'a list \<Rightarrow> nat option" where
  "findIndex p [] = None"
| "findIndex p (x # xs) =
     (if p x then Some 0 else (case findIndex p xs of None \<Rightarrow> None | Some i \<Rightarrow> Some (Suc i)))"

text \<open>\<^verbatim>\<open>xs.splice(i, 1)\<close>, as the array it leaves.\<close>

definition splice1 :: "nat \<Rightarrow> 'a list \<Rightarrow> 'a list" where
  "splice1 i xs = take i xs @ drop (Suc i) xs"

text \<open>
  \<^verbatim>\<open>DELETE /api/volunteers/:id\<close>, where \<open>i\<close> is the path segment the route extracts. It
  returns the response, the volunteers array and the events array.
\<close>

definition deleteVolunteer ::
  "string \<Rightarrow> obj list \<Rightarrow> obj list \<Rightarrow> response \<times> obj list \<times> obj list" where
  "deleteVolunteer i volunteers events =
     (case findIndex (\<lambda>v. getProp v ''id'' = Some (JStr i)) volunteers of
        None \<Rightarrow> (Response 404 (JObj [(''error'', JStr ''Volunteer not found'')]), volunteers, events)
      | Some volunteerIndex \<Rightarrow>
          (Response 200 (JObj [(''success'', JBool True)]),
           splice1 volunteerIndex volunteers,
           filter (\<lambda>e. getProp e ''volunteerId'' \<noteq> Some (JStr i)) events))"

text \<open>\<^verbatim>\<open>POST /api/sync/sheets\<close>.\<close>

record config =
  adminPassword :: string
  sheetsConfig :: "sheetsConfig option"

fun stringIncludes :: "string \<Rightarrow> string \<Rightarrow> bool" where
  "stringIncludes [] t = (t = [])"
| "stringIncludes (c # s) t = (prefix t (c # s) \<or> stringIncludes s t)"

text \<open>
  \<^verbatim>\<open>config.sheetsConfig.credentials?.client_email || 'the service account email'\<close>
\<close>

definition serviceEmail :: "sheetsConfig \<Rightarrow> string" where
  "serviceEmail sc =
     (case credentials sc of
        None \<Rightarrow> ''the service account email''
      | Some cr \<Rightarrow>
          (case client_email cr of
             None \<Rightarrow> ''the service account email''
           | Some e \<Rightarrow> if e = [] then ''the service account email'' else e))"

definition notConfigured :: response where
  "notConfigured =
     Response 400 (JObj
       [(''success'', JBool False), (''error'', JStr ''Google Sheets not configured'')])"

definition permissionMessage :: "string \<Rightarrow> string" where
  "permissionMessage e =
     ''Permission denied: The service account does not have access to this spreadsheet. ''
     @ ''Please share the spreadsheet with '' @ e @ '' and give it Editor permission.''"

text \<open>The response to a sync result.\<close>

definition syncResponse :: "sheetsConfig \<Rightarrow> string \<Rightarrow> nat \<Rightarrow> nat \<Rightarrow> syncResult \<Rightarrow> response" where
  "syncResponse sc sid nVolunteers nEvents syncResult =
     (case syncResult of
        Success _ _ \<Rightarrow>
          Response 200 (JObj
            [(''success'', JBool True),
             (''message'',
              JStr (''Synced with Google Sheets successfully. Spreadsheet ID: '' @ sid)),
             (''newData'', JObj [(''volunteers'', JNum (of_nat nVolunteers)),
                                 (''events'', JNum (of_nat nEvents))])])
      | Failure error \<Rightarrow>
          if error \<noteq> [] \<and> stringIncludes error ''permission''
          then Response 403 (JObj
            [(''success'', JBool False),
             (''error'', JStr (permissionMessage (serviceEmail sc))),
             (''serviceEmail'', JStr (serviceEmail sc))])
          else Response 500 (JObj
            [(''success'', JBool False),
             (''error'', JStr (if error \<noteq> [] then error else ''Unknown error during sync'')),
             (''serviceEmail'', JStr (serviceEmail sc))]))"

definition postSyncSheets ::
  "runtime \<Rightarrow> config \<Rightarrow> volunteer list \<Rightarrow> event list \<Rightarrow> remote \<Rightarrow> response \<times> remote" where
  "postSyncSheets rt cf volunteers events r =
     (case config.sheetsConfig cf of
        None \<Rightarrow> (notConfigured, r)
      | Some sc \<Rightarrow>
          (case spreadsheetId sc of
             None \<Rightarrow> (notConfigured, r)
           | Some sid \<Rightarrow>
               if sid = [] then (notConfigured, r)
               else
                 (case syncToGoogleSheets rt (Some sc) volunteers events r of
                    (syncResult, r') \<Rightarrow>
                      (syncResponse sc sid (length volunteers) (length events) syncResult, r'))))"

subsection \<open>Vocabulary of the theorems\<close>

text \<open>
  A comparator is consistent on a set when \<open>cmp a b \<le> 0\<close> is a total preorder there; this
  is the condition under which the language fixes the result of a sort.
\<close>

definition consistentOn :: "('a \<Rightarrow> 'a \<Rightarrow> int) \<Rightarrow> 'a set \<Rightarrow> bool" where
  "consistentOn cmp S =
     ((\<forall>a\<in>S. \<forall>b\<in>S. cmp a b \<le> 0 \<or> cmp b a \<le> 0)
      \<and> (\<forall>a\<in>S. \<forall>b\<in>S. \<forall>c\<in>S. cmp a b \<le> 0 \<and> cmp b c \<le> 0 \<longrightarrow> cmp a c \<le> 0))"

text \<open>
  A comparator orders a set by a key when it is negative exactly on the pairs whose keys
  ascend.
\<close>

definition keyedBy :: "('a \<Rightarrow> 'a \<Rightarrow> int) \<Rightarrow> ('a \<Rightarrow> int) \<Rightarrow> 'a set \<Rightarrow> bool" where
  "keyedBy cmp k S = (\<forall>a\<in>S. \<forall>b\<in>S. (cmp a b < 0) = (k a < k b))"

text \<open>The time value of an event whose date parses.\<close>

definition timeValue :: "runtime \<Rightarrow> event \<Rightarrow> int" where
  "timeValue rt e = the (dateParse rt (date e))"

text \<open>The cells of an event in a row, after the display ID.\<close>

definition eventCells :: "event \<Rightarrow> cell list" where
  "eventCells e =
     [StrCell (event.name e), StrCell (location e), StrCell (date e),
      (case hours e of None \<Rightarrow> UndefCell | Some h \<Rightarrow> StrCell h)]"

text \<open>
  The rows \<open>data\<close> list the events \<open>evs\<close>: row \<open>i\<close> starts with the display ID \<open>i + 1\<close>
  and goes on with the cells of an event, every event in one row; and when all the dates
  parse, the events come in ascending order of their time values, those of equal time
  value in the order they have in \<open>evs\<close>.
\<close>

definition listsEvents :: "runtime \<Rightarrow> event list \<Rightarrow> cell list list \<Rightarrow> bool" where
  "listsEvents rt evs data =
     (map hd data = map NumCell [1..<length evs + 1]
      \<and> mset (map tl data) = mset (map eventCells evs)
      \<and> ((\<forall>e\<in>set evs. dateParse rt (date e) \<noteq> None) \<longrightarrow>
           map tl data = map eventCells (sort_key (timeValue rt) evs)))"

text \<open>The worksheet writes among a list of requests: range and rows of each update.\<close>

fun writes :: "request list \<Rightarrow> (string \<times> cell list list) list" where
  "writes [] = []"
| "writes (UpdateValues sid rg rows # qs) = (rg, rows) # writes qs"
| "writes (q # qs) = writes qs"

text \<open>
  The writes a sync sets out to make: the summary sheet, then the sheet of every sorted
  volunteer with events.
\<close>

definition individualWrites ::
  "runtime \<Rightarrow> event list \<Rightarrow> volunteer list \<Rightarrow> (string \<times> cell list list) list" where
  "individualWrites rt events vs =
     map (\<lambda>(title, header, rows). (title @ ''!A1'', header # rows))
       (List.map_filter (individualSheet rt events) vs)"

definition plannedWrites ::
  "runtime \<Rightarrow> volunteer list \<Rightarrow> event list \<Rightarrow> (string \<times> cell list list) list" where
  "plannedWrites rt volunteers events =
     (''Volunteers!A1'', volunteersHeader # volunteersData rt volunteers events)
     # individualWrites rt events (sortedVolunteers rt volunteers)"

text \<open>A request without the rows it carries.\<close>

fun withoutRows :: "request \<Rightarrow> request" where
  "withoutRows (UpdateValues sid rg rows) = UpdateValues sid rg []"
| "withoutRows q = q"

text \<open>
  The requests, rows left out, that bring the worksheet \<open>t\<close> up to date when the
  worksheets \<open>existing\<close> are there: the spreadsheet is read, the worksheet is added if
  its title is new, cleared and written. \<open>sheetsRequests\<close> are the requests for one
  worksheet after the other.
\<close>

definition worksheetRequests :: "string list \<Rightarrow> string \<Rightarrow> string \<Rightarrow> request list" where
  "worksheetRequests existing sid t =
     GetSpreadsheet sid # (if t \<in> set existing then [] else [AddSheet sid t])
     @ [ClearValues sid t, UpdateValues sid (t @ ''!A1'') []]"

fun sheetsRequests :: "string list \<Rightarrow> string \<Rightarrow> string list \<Rightarrow> request list" where
  "sheetsRequests existing sid [] = []"
| "sheetsRequests existing sid (t # ts) =
     worksheetRequests existing sid t
     @ sheetsRequests (if t \<in> set existing then existing else existing @ [t]) sid ts"

text \<open>
  The shape of a run from \<open>r\<close> to \<open>r'\<close> with outcome \<open>x\<close> and intended writes \<open>W\<close>: the
  requests it adds to the log all succeeded and made the writes \<open>W\<close>, or the last one
  failed with the error thrown and the writes made are a prefix of \<open>W\<close>.
\<close>

definition run ::
  "remote \<Rightarrow> (string + 'a) \<Rightarrow> remote \<Rightarrow> (string \<times> cell list list) list \<Rightarrow> bool" where
  "run r x r' W =
     (faults r' = faults r \<and>
      (\<exists>qs. calls r' = calls r @ qs \<and>
         (case x of
            Inr _ \<Rightarrow> writes qs = W \<and> (\<forall>k<length qs. faults r (length (calls r) + k) = None)
          | Inl e \<Rightarrow> qs \<noteq> [] \<and> prefix (writes qs) W
                     \<and> faults r (length (calls r) + (length qs - 1)) = Some e
                     \<and> (\<forall>k<length qs - 1. faults r (length (calls r) + k) = None))))"

subsection \<open>Example inputs\<close>

text \<open>
  A runtime for the examples: strings compare by character code, and three dates parse
  to their time values (midnight UTC).
\<close>

fun codeUnitCompare :: "string \<Rightarrow> string \<Rightarrow> int" where
  "codeUnitCompare [] [] = 0"
| "codeUnitCompare [] (y # ys) = - 1"
| "codeUnitCompare (x # xs) [] = 1"
| "codeUnitCompare (x # xs) (y # ys) =
     (if (of_char x :: nat) < of_char y then - 1
      else if (of_char y :: nat) < of_char x then 1
      else codeUnitCompare xs ys)"

definition exampleRuntime :: runtime where
  "exampleRuntime =
     \<lparr>localeCompare = codeUnitCompare,
      dateParse = map_of [(''2024-01-05'', 1704412800000), (''2024-03-01'', 1709251200000),
                          (''2023-12-24'', 1703376000000)]\<rparr>"

definition bob :: volunteer where
  "bob =
     \<lparr>volunteer.id = ''7f3a'', volunteer.name = ''bob'', phone = ''555-0102'',
      email = ''bob@example.org''\<rparr>"

definition alice :: volunteer where
  "alice =
     \<lparr>volunteer.id = ''c41d'', volunteer.name = ''Alice'', phone = ''555-0101'',
      email = ''alice@example.org''\<rparr>"

definition carol :: volunteer where
  "carol =
     \<lparr>volunteer.id = ''09be'', volunteer.name = ''Carol'', phone = ''555-0103'',
      email = ''carol@example.org''\<rparr>"

definition exampleVolunteers :: "volunteer list" where
  "exampleVolunteers = [bob, carol, alice]"

text \<open>
  Bob has two events, stored out of date order; Carol has one; Alice has none; the last
  event refers to a volunteer that no longer exists.
\<close>

definition exampleEvents :: "event list" where
  "exampleEvents =
     [\<lparr>id = ''e1'', volunteerId = ''7f3a'', name = ''Food drive'', location = ''Hall'',
       date = ''2024-03-01'', hours = Some ''2''\<rparr>,
      \<lparr>id = ''e2'', volunteerId = ''09be'', name = ''Cleanup'', location = ''Park'',
       date = ''2024-01-05'', hours = None\<rparr>,
      \<lparr>id = ''e3'', volunteerId = ''7f3a'', name = ''Toy drive'', location = ''School'',
       date = ''2023-12-24'', hours = Some ''1.5''\<rparr>,
      \<lparr>id = ''e4'', volunteerId = ''dead'', name = ''Bake sale'', location = ''Church'',
       date = ''2024-01-05'', hours = Some ''4''\<rparr>]"

text \<open>
  Dana has three events, stored with the latest first; the date of the second is not a
  date.
\<close>

definition dana :: volunteer where
  "dana =
     \<lparr>volunteer.id = ''5b7e'', volunteer.name = ''Dana'', phone = ''555-0104'',
      email = ''dana@example.org''\<rparr>"

definition undatedEvents :: "event list" where
  "undatedEvents =
     [\<lparr>id = ''e5'', volunteerId = ''5b7e'', name = ''Food drive'', location = ''Hall'',
       date = ''2024-03-01'', hours = Some ''2''\<rparr>,
      \<lparr>id = ''e6'', volunteerId = ''5b7e'', name = ''Planning'', location = ''Office'',
       date = ''TBD'', hours = Some ''1''\<rparr>,
      \<lparr>id = ''e7'', volunteerId = ''5b7e'', name = ''Toy drive'', location = ''School'',
       date = ''2023-12-24'', hours = Some ''1.5''\<rparr>]"

definition exampleSheetsConfig :: sheetsConfig where
  "exampleSheetsConfig =
     \<lparr>spreadsheetId = Some ''sheet-1'',
      credentials = Some \<lparr>client_email = Some ''sync@project.iam.example''\<rparr>\<rparr>"

definition exampleConfig :: config where
  "exampleConfig = \<lparr>adminPassword = ''admin123'', sheetsConfig = Some exampleSheetsConfig\<rparr>"

text \<open>A remote with one worksheet where no request fails, and one whose fifth request fails.\<close>

definition quietRemote :: remote where
  "quietRemote =
     \<lparr>titles = [''Sheet1''], calls = [], faults = (\<lambda>_. None), clientError = None,
      clientsBuilt = 0\<rparr>"

definition failingRemote :: "string \<Rightarrow> remote" where
  "failingRemote e =
     \<lparr>titles = [''Sheet1''], calls = [],
      faults = (\<lambda>k. if k = 4 then Some e else None), clientError = None,
      clientsBuilt = 0\<rparr>"

section \<open>Theorems\<close>

subsection \<open>Sorting\<close>

lemma sortBy_Nil: "sortBy cmp [] = []"
  by (simp add: sortBy_def)

lemma sortBy_Cons: "sortBy cmp (x # xs) = insertBy cmp x (sortBy cmp xs)"
  by (simp add: sortBy_def)

lemma mset_insertBy: "mset (insertBy cmp x xs) = add_mset x (mset xs)"
  by (induction xs) auto

lemma mset_sortBy: "mset (sortBy cmp xs) = mset xs"
  by (induction xs) (simp_all add: sortBy_Nil sortBy_Cons mset_insertBy)

lemma set_insertBy: "set (insertBy cmp x xs) = insert x (set xs)"
  by (induction xs) auto

lemma set_sortBy: "set (sortBy cmp xs) = set xs"
  by (induction xs) (simp_all add: sortBy_Nil sortBy_Cons set_insertBy)

lemma length_sortBy: "length (sortBy cmp xs) = length xs"
  using mset_sortBy [of cmp xs] by (metis size_mset)

lemma consistentOn_subset: "consistentOn cmp S \<Longrightarrow> T \<subseteq> S \<Longrightarrow> consistentOn cmp T"
  unfolding consistentOn_def by blast

lemma consistentOn_total:
  "consistentOn cmp S \<Longrightarrow> a \<in> S \<Longrightarrow> b \<in> S \<Longrightarrow> \<not> cmp a b \<le> 0 \<Longrightarrow> cmp b a \<le> 0"
  unfolding consistentOn_def by blast

lemma consistentOn_trans:
  "consistentOn cmp S \<Longrightarrow> a \<in> S \<Longrightarrow> b \<in> S \<Longrightarrow> c \<in> S \<Longrightarrow> cmp a b \<le> 0 \<Longrightarrow> cmp b c \<le> 0
   \<Longrightarrow> cmp a c \<le> 0"
  unfolding consistentOn_def by blast

lemma sorted_insertBy:
  assumes "consistentOn cmp (insert x (set xs))" "sorted_wrt (\<lambda>a b. cmp a b \<le> 0) xs"
  shows "sorted_wrt (\<lambda>a b. cmp a b \<le> 0) (insertBy cmp x xs)"
  using assms
proof (induction xs)
  case Nil
  show ?case by simp
next
  case (Cons y ys)
  have sub: "consistentOn cmp (insert x (set ys))"
    by (rule consistentOn_subset [OF Cons.prems(1)]) auto
  have sys: "sorted_wrt (\<lambda>a b. cmp a b \<le> 0) ys" and yz: "\<And>z. z \<in> set ys \<Longrightarrow> cmp y z \<le> 0"
    using Cons.prems(2) by simp_all
  show ?case
  proof (cases "cmp x y \<le> 0")
    case True
    have "cmp x z \<le> 0" if z: "z \<in> set ys" for z
      by (rule consistentOn_trans [OF Cons.prems(1) _ _ _ True yz [OF z]]) (use z in simp_all)
    with True Cons.prems(2) show ?thesis by simp
  next
    case False
    have yx: "cmp y x \<le> 0"
      by (rule consistentOn_total [OF Cons.prems(1) _ _ False]) simp_all
    have "sorted_wrt (\<lambda>a b. cmp a b \<le> 0) (insertBy cmp x ys)"
      by (rule Cons.IH [OF sub sys])
    moreover have "\<forall>z\<in>set (insertBy cmp x ys). cmp y z \<le> 0"
      using yx yz by (simp add: set_insertBy)
    ultimately show ?thesis using False by simp
  qed
qed

lemma sorted_sortBy:
  "consistentOn cmp (set xs) \<Longrightarrow> sorted_wrt (\<lambda>a b. cmp a b \<le> 0) (sortBy cmp xs)"
proof (induction xs)
  case Nil
  show ?case by (simp add: sortBy_Nil)
next
  case (Cons x xs)
  have "consistentOn cmp (set xs)"
    by (rule consistentOn_subset [OF Cons.prems]) auto
  then have s: "sorted_wrt (\<lambda>a b. cmp a b \<le> 0) (sortBy cmp xs)" by (rule Cons.IH)
  have "consistentOn cmp (insert x (set (sortBy cmp xs)))"
    using Cons.prems by (simp add: set_sortBy)
  from sorted_insertBy [OF this s] show ?case by (simp only: sortBy_Cons)
qed

text \<open>The sort of the engine: a permutation, and the stable arrangement by a key.\<close>

lemma bsearch_bounds: "left \<le> right \<Longrightarrow> left \<le> bsearch cmp pivot xs left right \<and> bsearch cmp pivot xs left right \<le> right"
proof (induction cmp pivot xs left right rule: bsearch.induct)
  case (1 cmp pivot xs left right)
  show ?case
  proof (cases "left < right")
    case False
    with "1.prems" show ?thesis by (simp add: bsearch.simps [of cmp pivot xs right right])
  next
    case True
    let ?mid = "left + (right - left) div 2"
    have m: "left \<le> ?mid" "?mid < right" using True by simp_all
    show ?thesis
    proof (cases "cmp pivot (xs ! ?mid) < 0")
      case lt: True
      from "1.IH"(1) [OF True refl refl lt] m
      have "left \<le> bsearch cmp pivot xs left ?mid \<and> bsearch cmp pivot xs left ?mid \<le> ?mid" by simp
      with True lt m show ?thesis by (simp add: bsearch.simps [of cmp pivot xs left right] Let_def)
    next
      case ge: False
      from "1.IH"(2) [OF True refl refl ge] m
      have "?mid + 1 \<le> bsearch cmp pivot xs (?mid + 1) right \<and> bsearch cmp pivot xs (?mid + 1) right \<le> right"
        by simp
      with True ge m show ?thesis by (simp add: bsearch.simps [of cmp pivot xs left right] Let_def)
    qed
  qed
qed

lemma mset_binaryInsert: "mset (binaryInsert cmp acc pivot) = add_mset pivot (mset acc)"
proof -
  have "mset (take k acc @ pivot # drop k acc) = add_mset pivot (mset acc)" for k
    by (metis append_take_drop_id mset.simps(2) mset_append union_mset_add_mset_right)
  then show ?thesis by (simp add: binaryInsert_def Let_def)
qed

lemma mset_foldl_binaryInsert: "mset (foldl (binaryInsert cmp) acc rest) = mset acc + mset rest"
  by (induction rest arbitrary: acc) (simp_all add: mset_binaryInsert)

lemma mset_engineSort: "mset (engineSort cmp xs) = mset xs"
proof (cases xs)
  case Nil
  then show ?thesis by (simp add: engineSort_def)
next
  case (Cons a ys)
  show ?thesis
  proof (cases ys)
    case Nil
    with Cons show ?thesis by (simp add: engineSort_def)
  next
    case (Cons b rest)
    have "mset (take n l) + mset (drop n l) = mset l" for n and l :: "'a list"
      by (metis append_take_drop_id mset_append)
    with Cons \<open>xs = a # ys\<close> show ?thesis
      by (simp add: engineSort_def Let_def mset_foldl_binaryInsert)
  qed
qed

lemma keyedBy_subset: "keyedBy cmp k S \<Longrightarrow> T \<subseteq> S \<Longrightarrow> keyedBy cmp k T"
  unfolding keyedBy_def by blast

lemma keyedBy_lt: "keyedBy cmp k S \<Longrightarrow> a \<in> S \<Longrightarrow> b \<in> S \<Longrightarrow> (cmp a b < 0) = (k a < k b)"
  unfolding keyedBy_def by blast

lemma bsearch_spec:
  assumes "sorted (map k xs)" "keyedBy cmp k (insert pivot (set xs))"
    and "left \<le> right" "right \<le> length xs"
    and "\<forall>i<left. k (xs ! i) \<le> k pivot"
    and "\<forall>i. right \<le> i \<and> i < length xs \<longrightarrow> k pivot < k (xs ! i)"
  shows "(\<forall>i<bsearch cmp pivot xs left right. k (xs ! i) \<le> k pivot)
         \<and> (\<forall>i. bsearch cmp pivot xs left right \<le> i \<and> i < length xs \<longrightarrow> k pivot < k (xs ! i))"
  using assms
proof (induction cmp pivot xs left right rule: bsearch.induct)
  case (1 cmp pivot xs left right)
  show ?case
  proof (cases "left < right")
    case False
    with "1.prems"(3) have "left = right" by simp
    with "1.prems"(5,6) show ?thesis by (simp add: bsearch.simps [of cmp pivot xs right right])
  next
    case True
    let ?mid = "left + (right - left) div 2"
    have m: "left \<le> ?mid" "?mid < right" using True by simp_all
    with "1.prems"(4) have ml: "?mid < length xs" by simp
    have mono: "k (xs ! i) \<le> k (xs ! j)" if "i \<le> j" "j < length xs" for i j
      using "1.prems"(1) that by (simp add: sorted_iff_nth_mono)
    have key: "(cmp pivot (xs ! ?mid) < 0) = (k pivot < k (xs ! ?mid))"
      using "1.prems"(2) ml by (intro keyedBy_lt [where S = "insert pivot (set xs)"]) simp_all
    show ?thesis
    proof (cases "cmp pivot (xs ! ?mid) < 0")
      case lt: True
      have r: "\<forall>i. ?mid \<le> i \<and> i < length xs \<longrightarrow> k pivot < k (xs ! i)"
      proof (intro allI impI)
        fix i assume "?mid \<le> i \<and> i < length xs"
        then have "k (xs ! ?mid) \<le> k (xs ! i)" using mono by blast
        with lt key show "k pivot < k (xs ! i)" by simp
      qed
      have "?mid \<le> length xs" using ml by simp
      from "1.IH"(1) [OF True refl refl lt "1.prems"(1,2) m(1) this "1.prems"(5) r] True lt
      show ?thesis by (simp add: bsearch.simps [of cmp pivot xs left right] Let_def)
    next
      case ge: False
      have l: "\<forall>i<?mid + 1. k (xs ! i) \<le> k pivot"
      proof (intro allI impI)
        fix i assume "i < ?mid + 1"
        then have "k (xs ! i) \<le> k (xs ! ?mid)" using mono ml by simp
        with ge key show "k (xs ! i) \<le> k pivot" by simp
      qed
      have "?mid + 1 \<le> right" using m by simp
      from "1.IH"(2) [OF True refl refl ge "1.prems"(1,2) this "1.prems"(4) l "1.prems"(6)] True ge
      show ?thesis by (simp add: bsearch.simps [of cmp pivot xs left right] Let_def)
    qed
  qed
qed

lemma set_binaryInsert: "set (binaryInsert cmp acc pivot) = insert pivot (set acc)"
  using mset_binaryInsert [of cmp acc pivot] by (metis set_mset_add_mset_insert set_mset_mset)

lemma sorted_binaryInsert:
  assumes "sorted (map k acc)" "keyedBy cmp k (insert pivot (set acc))"
  shows "sorted (map k (binaryInsert cmp acc pivot))"
proof -
  let ?r = "bsearch cmp pivot acc 0 (length acc)"
  from bsearch_spec [OF assms, of 0 "length acc"]
  have lo: "\<forall>i<?r. k (acc ! i) \<le> k pivot"
    and hi: "\<forall>i. ?r \<le> i \<and> i < length acc \<longrightarrow> k pivot < k (acc ! i)" by simp_all
  have r: "?r \<le> length acc" using bsearch_bounds [of 0 "length acc"] by simp
  have a: "\<forall>x\<in>set (take ?r acc). k x \<le> k pivot"
    using lo r by (auto simp: in_set_conv_nth)
  have b: "\<forall>y\<in>set (drop ?r acc). k pivot \<le> k y"
  proof
    fix y assume "y \<in> set (drop ?r acc)"
    then obtain j where "j < length acc - ?r" "y = acc ! (?r + j)"
      by (auto simp: in_set_conv_nth)
    with hi show "k pivot \<le> k y" by (simp add: less_imp_le)
  qed
  have c: "sorted (map k (take ?r acc))" "sorted (map k (drop ?r acc))"
    using assms(1) by (simp_all add: sorted_wrt_take sorted_wrt_drop take_map [symmetric] drop_map [symmetric])
  have d: "\<forall>x\<in>set (take ?r acc). \<forall>y\<in>set (drop ?r acc). k x \<le> k y"
    using a b by (meson order_trans)
  from a b c d show ?thesis
    by (simp add: binaryInsert_def Let_def sorted_append)
qed

lemma sorted_foldl_binaryInsert:
  "sorted (map k acc) \<Longrightarrow> keyedBy cmp k (set acc \<union> set rest) \<Longrightarrow>
   sorted (map k (foldl (binaryInsert cmp) acc rest))"
proof (induction rest arbitrary: acc)
  case Nil
  then show ?case by simp
next
  case (Cons p rest)
  have "keyedBy cmp k (insert p (set acc))"
    by (rule keyedBy_subset [OF Cons.prems(2)]) auto
  from sorted_binaryInsert [OF Cons.prems(1) this]
  have s: "sorted (map k (binaryInsert cmp acc p))" .
  have "keyedBy cmp k (set (binaryInsert cmp acc p) \<union> set rest)"
    by (rule keyedBy_subset [OF Cons.prems(2)]) (auto simp: set_binaryInsert)
  from Cons.IH [OF s this] show ?case by simp
qed

lemma run_ascending:
  "keyedBy cmp k (insert prev (set rest)) \<Longrightarrow>
   sorted (map k (prev # take (runTail cmp False prev rest) rest))"
proof (induction rest arbitrary: prev)
  case Nil
  show ?case by simp
next
  case (Cons cur rest)
  have key: "(cmp cur prev < 0) = (k cur < k prev)"
    by (rule keyedBy_lt [OF Cons.prems]) simp_all
  have "keyedBy cmp k (insert cur (set rest))"
    by (rule keyedBy_subset [OF Cons.prems]) auto
  from Cons.IH [OF this] key show ?case
    by (simp add: Let_def sorted1 sorted2 del: sorted_wrt.simps(2))
qed

lemma run_descending:
  "keyedBy cmp k (insert prev (set rest)) \<Longrightarrow>
   sorted_wrt (\<lambda>x y. y \<le> x) (map k (prev # take (runTail cmp True prev rest) rest))"
proof (induction rest arbitrary: prev)
  case Nil
  show ?case by simp
next
  case (Cons cur rest)
  have key: "(cmp cur prev < 0) = (k cur < k prev)"
    by (rule keyedBy_lt [OF Cons.prems]) simp_all
  have "keyedBy cmp k (insert cur (set rest))"
    by (rule keyedBy_subset [OF Cons.prems]) auto
  from Cons.IH [OF this]
  have ih: "sorted_wrt (\<lambda>x y. y \<le> x) (map k (cur # take (runTail cmp True cur rest) rest))" .
  have tr: "transp (\<lambda>x y :: int. y \<le> x)" by (auto intro: transpI)
  show ?case
  proof (cases "cmp cur prev < 0")
    case True
    with key have "k cur \<le> k prev" by simp
    with ih True show ?thesis
      by (simp add: Let_def sorted_wrt2 [OF tr] del: sorted_wrt.simps(2))
  next
    case False
    then show ?thesis by (simp add: Let_def)
  qed
qed

lemma sorted_engineSort:
  assumes "keyedBy cmp k (set xs)"
  shows "sorted (map k (engineSort cmp xs))"
proof (cases xs)
  case Nil
  then show ?thesis by (simp add: engineSort_def)
next
  case (Cons a ys)
  show ?thesis
  proof (cases ys)
    case Nil
    with Cons show ?thesis by (simp add: engineSort_def)
  next
    case (Cons b rest)
    with \<open>xs = a # ys\<close> have xs: "xs = a # b # rest" by simp
    let ?d = "cmp b a < 0"
    let ?n = "runTail cmp ?d b rest"
    let ?run = "a # b # take ?n rest"
    have key: "?d = (k b < k a)"
      by (rule keyedBy_lt [OF assms]) (simp_all add: xs)
    have kb: "keyedBy cmp k (insert b (set rest))"
      by (rule keyedBy_subset [OF assms]) (auto simp: xs)
    have tr: "transp (\<lambda>x y :: int. y \<le> x)" by (auto intro: transpI)
    have s: "sorted (map k (if ?d then rev ?run else ?run))"
    proof (cases ?d)
      case True
      with key have "k b \<le> k a" by simp
      with run_descending [OF kb] True
      have "sorted_wrt (\<lambda>x y. y \<le> x) (map k ?run)"
        by (simp add: sorted_wrt2 [OF tr] del: sorted_wrt.simps(2))
      then have "sorted (rev (map k ?run))" by (simp only: sorted_wrt_rev)
      with True show ?thesis by (simp only: rev_map if_True)
    next
      case False
      with key have "k a \<le> k b" by simp
      with run_ascending [OF kb] False show ?thesis
        by (simp add: sorted1 sorted2 del: sorted_wrt.simps(2))
    qed
    have u: "keyedBy cmp k (set (if ?d then rev ?run else ?run) \<union> set (drop ?n rest))"
      by (rule keyedBy_subset [OF assms]) (auto simp: xs dest: in_set_takeD in_set_dropD)
    from sorted_foldl_binaryInsert [OF s u] show ?thesis
      by (cases ?d) (simp_all add: engineSort_def xs Let_def)
  qed
qed

lemma filter_binaryInsert:
  assumes "sorted (map k acc)" "keyedBy cmp k (insert pivot (set acc))"
  shows "filter (\<lambda>x. k x = c) (binaryInsert cmp acc pivot) = filter (\<lambda>x. k x = c) (acc @ [pivot])"
proof -
  let ?r = "bsearch cmp pivot acc 0 (length acc)"
  let ?P = "\<lambda>x. k x = c"
  from bsearch_spec [OF assms, of 0 "length acc"]
  have hi: "\<forall>i. ?r \<le> i \<and> i < length acc \<longrightarrow> k pivot < k (acc ! i)" by simp
  have b: "\<forall>y\<in>set (drop ?r acc). k pivot < k y"
  proof
    fix y assume "y \<in> set (drop ?r acc)"
    then obtain j where "j < length acc - ?r" "y = acc ! (?r + j)"
      by (auto simp: in_set_conv_nth)
    with hi show "k pivot < k y" by simp
  qed
  have split: "filter ?P acc = filter ?P (take ?r acc) @ filter ?P (drop ?r acc)"
    by (simp only: filter_append [symmetric] append_take_drop_id)
  show ?thesis
  proof (cases "k pivot = c")
    case True
    with b have "filter ?P (drop ?r acc) = []" by (auto simp: filter_empty_conv)
    with True split show ?thesis by (simp add: binaryInsert_def Let_def)
  next
    case False
    with split show ?thesis by (simp add: binaryInsert_def Let_def)
  qed
qed

lemma filter_foldl_binaryInsert:
  "sorted (map k acc) \<Longrightarrow> keyedBy cmp k (set acc \<union> set rest) \<Longrightarrow>
   filter (\<lambda>x. k x = c) (foldl (binaryInsert cmp) acc rest) = filter (\<lambda>x. k x = c) (acc @ rest)"
proof (induction rest arbitrary: acc)
  case Nil
  then show ?case by simp
next
  case (Cons p rest)
  have kp: "keyedBy cmp k (insert p (set acc))"
    by (rule keyedBy_subset [OF Cons.prems(2)]) auto
  from sorted_binaryInsert [OF Cons.prems(1) kp]
  have s: "sorted (map k (binaryInsert cmp acc p))" .
  have "keyedBy cmp k (set (binaryInsert cmp acc p) \<union> set rest)"
    by (rule keyedBy_subset [OF Cons.prems(2)]) (auto simp: set_binaryInsert)
  from Cons.IH [OF s this] filter_binaryInsert [OF Cons.prems(1) kp, of c]
  show ?case by simp
qed

lemma run_strictly_descending:
  "keyedBy cmp k (insert prev (set rest)) \<Longrightarrow>
   distinct (map k (prev # take (runTail cmp True prev rest) rest))
   \<and> (\<forall>x\<in>set (take (runTail cmp True prev rest) rest). k x < k prev)"
proof (induction rest arbitrary: prev)
  case Nil
  show ?case by simp
next
  case (Cons cur rest)
  have key: "(cmp cur prev < 0) = (k cur < k prev)"
    by (rule keyedBy_lt [OF Cons.prems]) simp_all
  have "keyedBy cmp k (insert cur (set rest))"
    by (rule keyedBy_subset [OF Cons.prems]) auto
  from Cons.IH [OF this] key show ?case by (fastforce simp: Let_def)
qed

lemma filter_rev_distinct:
  "distinct (map k xs) \<Longrightarrow> filter (\<lambda>x. k x = c) (rev xs) = filter (\<lambda>x. k x = c) xs"
proof (induction xs)
  case Nil
  show ?case by simp
next
  case (Cons x xs)
  show ?case
  proof (cases "k x = c")
    case True
    with Cons.prems have "filter (\<lambda>y. k y = c) xs = []"
      by (force simp: filter_empty_conv image_iff)
    with True Cons show ?thesis by simp
  next
    case False
    with Cons show ?thesis by simp
  qed
qed

lemma filter_engineSort:
  assumes "keyedBy cmp k (set xs)"
  shows "filter (\<lambda>x. k x = c) (engineSort cmp xs) = filter (\<lambda>x. k x = c) xs"
proof (cases xs)
  case Nil
  then show ?thesis by (simp add: engineSort_def)
next
  case (Cons a ys)
  show ?thesis
  proof (cases ys)
    case Nil
    with Cons show ?thesis by (simp add: engineSort_def)
  next
    case (Cons b rest)
    with \<open>xs = a # ys\<close> have xs: "xs = a # b # rest" by simp
    let ?d = "cmp b a < 0"
    let ?n = "runTail cmp ?d b rest"
    let ?run = "a # b # take ?n rest"
    let ?P = "\<lambda>x. k x = c"
    have key: "?d = (k b < k a)"
      by (rule keyedBy_lt [OF assms]) (simp_all add: xs)
    have kb: "keyedBy cmp k (insert b (set rest))"
      by (rule keyedBy_subset [OF assms]) (auto simp: xs)
    have tr: "transp (\<lambda>x y :: int. y \<le> x)" by (auto intro: transpI)
    have s: "sorted (map k (if ?d then rev ?run else ?run))"
    proof (cases ?d)
      case True
      with key have "k b \<le> k a" by simp
      with run_descending [OF kb] True
      have "sorted_wrt (\<lambda>x y. y \<le> x) (map k ?run)"
        by (simp add: sorted_wrt2 [OF tr] del: sorted_wrt.simps(2))
      then have "sorted (rev (map k ?run))" by (simp only: sorted_wrt_rev)
      with True show ?thesis by (simp only: rev_map if_True)
    next
      case False
      with key have "k a \<le> k b" by simp
      with run_ascending [OF kb] False show ?thesis
        by (simp add: sorted1 sorted2 del: sorted_wrt.simps(2))
    qed
    have f: "filter ?P (if ?d then rev ?run else ?run) = filter ?P ?run"
    proof (cases ?d)
      case True
      with key run_strictly_descending [OF kb] have "distinct (map k ?run)" by fastforce
      from filter_rev_distinct [OF this] True show ?thesis by (simp only: if_True)
    next
      case False
      then show ?thesis by simp
    qed
    have u: "keyedBy cmp k (set (if ?d then rev ?run else ?run) \<union> set (drop ?n rest))"
      by (rule keyedBy_subset [OF assms]) (auto simp: xs dest: in_set_takeD in_set_dropD)
    have "filter ?P (engineSort cmp xs)
        = filter ?P ((if ?d then rev ?run else ?run) @ drop ?n rest)"
      using filter_foldl_binaryInsert [OF s u, of c]
      by (cases ?d) (simp_all add: engineSort_def xs Let_def)
    also have "\<dots> = filter ?P (?run @ drop ?n rest)"
      using f by (simp only: filter_append)
    also have "?run @ drop ?n rest = xs" by (simp add: xs)
    finally show ?thesis .
  qed
qed

lemma engineSort_sort_key:
  assumes "keyedBy cmp k (set xs)"
  shows "engineSort cmp xs = sort_key k xs"
proof (rule properties_for_sort_key [symmetric])
  show "mset (engineSort cmp xs) = mset xs" by (rule mset_engineSort)
  show "sorted (map k (engineSort cmp xs))" by (rule sorted_engineSort [OF assms])
  fix x
  show "filter (\<lambda>y. k x = k y) (engineSort cmp xs) = filter (\<lambda>y. k x = k y) xs"
    using filter_engineSort [OF assms, of "k x"] by (simp add: eq_commute)
qed

lemma insertBy_insort_key:
  "\<forall>y\<in>set ys. (cmp x y \<le> 0) = (k x \<le> k y) \<Longrightarrow> insertBy cmp x ys = insort_key k x ys"
  by (induction ys) simp_all

lemma sortBy_sort_key:
  "\<forall>a\<in>set xs. \<forall>b\<in>set xs. (cmp a b \<le> 0) = (k a \<le> k b) \<Longrightarrow> sortBy cmp xs = sort_key k xs"
proof (induction xs)
  case Nil
  show ?case by (simp add: sortBy_Nil)
next
  case (Cons x xs)
  then have "sortBy cmp xs = sort_key k xs" by simp
  moreover have "\<forall>y\<in>set (sort_key k xs). (cmp x y \<le> 0) = (k x \<le> k y)"
    using Cons.prems by simp
  ultimately show ?case by (simp add: sortBy_Cons insertBy_insort_key)
qed

lemma sortBy_engineSort:
  assumes "\<forall>a\<in>set xs. \<forall>b\<in>set xs. (cmp a b \<le> 0) = (k a \<le> k b)"
    and "keyedBy cmp k (set xs)"
  shows "sortBy cmp xs = engineSort cmp xs"
  using assms by (simp add: sortBy_sort_key engineSort_sort_key)

subsection \<open>The shape of a run\<close>

lemma writes_append: "writes (xs @ ys) = writes xs @ writes ys"
  by (induction xs rule: writes.induct) simp_all

lemma run_send: "send q r = (x, r') \<Longrightarrow> run r x r' (writes [q])"
  by (auto simp: send_def run_def split: option.splits)

lemma run_ret: "ret v r = (x, r') \<Longrightarrow> run r x r' []"
  by (auto simp: ret_def run_def)

lemma run_seq:
  assumes "run r (Inr a) r1 W1" "run r1 x r2 W2"
  shows "run r x r2 (W1 @ W2)"
proof -
  from assms(1) obtain qs1 where f1: "faults r1 = faults r"
    and c1: "calls r1 = calls r @ qs1" and w1: "writes qs1 = W1"
    and n1: "\<forall>k<length qs1. faults r (length (calls r) + k) = None"
    by (auto simp: run_def)
  from assms(2) obtain qs2 where f2: "faults r2 = faults r1"
    and c2: "calls r2 = calls r1 @ qs2"
    and x2: "(case x of
            Inr _ \<Rightarrow> writes qs2 = W2 \<and> (\<forall>k<length qs2. faults r1 (length (calls r1) + k) = None)
          | Inl e \<Rightarrow> qs2 \<noteq> [] \<and> prefix (writes qs2) W2
                     \<and> faults r1 (length (calls r1) + (length qs2 - 1)) = Some e
                     \<and> (\<forall>k<length qs2 - 1. faults r1 (length (calls r1) + k) = None))"
    by (auto simp: run_def)
  have c: "calls r2 = calls r @ (qs1 @ qs2)" using c1 c2 by simp
  have none: "faults r (length (calls r) + k) = None"
    if "k < length qs1 + n" "\<forall>j<n. faults r1 (length (calls r1) + j) = None" for k n
  proof (cases "k < length qs1")
    case True
    then show ?thesis using n1 by simp
  next
    case False
    then have "k - length qs1 < n" using that(1) by simp
    with that(2) have "faults r1 (length (calls r1) + (k - length qs1)) = None" by simp
    then show ?thesis using False f1 c1 by simp
  qed
  show ?thesis
  proof (cases x)
    case (Inr b)
    with x2 have w2: "writes qs2 = W2" and n2: "\<forall>k<length qs2. faults r1 (length (calls r1) + k) = None"
      by simp_all
    have "\<forall>k<length (qs1 @ qs2). faults r (length (calls r) + k) = None"
      using none [OF _ n2] by simp
    with Inr c f1 f2 w1 w2 show ?thesis
      unfolding run_def by (auto simp: writes_append)
  next
    case (Inl e)
    with x2 have ne: "qs2 \<noteq> []" and p2: "prefix (writes qs2) W2"
      and l2: "faults r1 (length (calls r1) + (length qs2 - 1)) = Some e"
      and n2: "\<forall>k<length qs2 - 1. faults r1 (length (calls r1) + k) = None"
      by simp_all
    have a: "\<forall>k<length (qs1 @ qs2) - 1. faults r (length (calls r) + k) = None"
    proof (intro allI impI)
      fix k assume "k < length (qs1 @ qs2) - 1"
      then have "k < length qs1 + (length qs2 - 1)" using ne by (cases qs2) simp_all
      from none [OF this n2] show "faults r (length (calls r) + k) = None" .
    qed
    have b: "faults r (length (calls r) + (length (qs1 @ qs2) - 1)) = Some e"
    proof -
      have "length (calls r) + (length (qs1 @ qs2) - 1) = length (calls r1) + (length qs2 - 1)"
        using ne c1 by (cases qs2) simp_all
      then show ?thesis using l2 f1 by simp
    qed
    have "prefix (writes (qs1 @ qs2)) (W1 @ W2)"
      using p2 w1 by (simp add: writes_append)
    with Inl c f1 f2 a b ne show ?thesis
      unfolding run_def by auto
  qed
qed

lemma run_fail_extend: "run r (Inl e) r' W \<Longrightarrow> run r (Inl e) r' (W @ W')"
  unfolding run_def by (auto intro: prefix_order.trans)

lemma run_andThen:
  assumes m: "\<And>x r1. m r = (x, r1) \<Longrightarrow> run r x r1 W1"
    and f: "\<And>a r1 x r2. m r = (Inr a, r1) \<Longrightarrow> f a r1 = (x, r2) \<Longrightarrow> run r1 x r2 W2"
    and eq: "andThen m f r = (x, r')"
  shows "run r x r' (W1 @ W2)"
proof (cases "m r")
  case (Pair y r1)
  show ?thesis
  proof (cases y)
    case (Inl e)
    with Pair eq have "x = Inl e" "r' = r1" by (simp_all add: andThen_def)
    with m [OF Pair] Inl show ?thesis by (simp add: run_fail_extend)
  next
    case (Inr a)
    with Pair eq have "f a r1 = (x, r')" by (simp add: andThen_def)
    from run_seq [OF _ f [OF _ this]] m [OF Pair] Pair Inr show ?thesis by simp
  qed
qed


lemma run_addSheet: "addSheet sid t r = (x, r') \<Longrightarrow> run r x r' []"
proof -
  assume eq: "addSheet sid t r = (x, r')"
  have "run r x r' (writes [AddSheet sid t] @ [])"
  proof (rule run_andThen [OF _ _ eq [unfolded addSheet_def]])
    show "\<And>x r1. send (AddSheet sid t) r = (x, r1) \<Longrightarrow> run r x r1 (writes [AddSheet sid t])"
      by (rule run_send)
    show "\<And>a r1 x r2. (Inr (), r1\<lparr>titles := titles r1 @ [t]\<rparr>) = (x, r2) \<Longrightarrow> run r1 x r2 []"
      by (auto simp: run_def)
  qed
  then show ?thesis by simp
qed

lemma run_updateWorksheet:
  assumes eq: "updateWorksheet sid t h d r = (x, r')"
  shows "run r x r' [(t @ ''!A1'', h # d)]"
proof -
  let ?tail = "\<lambda>_::unit. andThen (send (ClearValues sid t)) (\<lambda>_. send (UpdateValues sid (t @ ''!A1'') (h # d)))"
  have tail: "run r1 y r2 [(t @ ''!A1'', h # d)]" if "?tail u r1 = (y, r2)" for u r1 y r2
  proof -
    have "run r1 y r2 (writes [ClearValues sid t] @ writes [UpdateValues sid (t @ ''!A1'') (h # d)])"
      by (rule run_andThen [OF _ _ that]) (erule run_send)+
    then show ?thesis by simp
  qed
  have mid: "run r1 y r2 [(t @ ''!A1'', h # d)]"
    if "andThen (if \<not> t \<in> set (titles r1) then addSheet sid t else ret ()) ?tail r1 = (y, r2)" for r1 y r2
  proof -
    have "run r1 y r2 ([] @ [(t @ ''!A1'', h # d)])"
    proof (rule run_andThen [OF _ _ that])
      show "\<And>x r1a. (if t \<notin> set (titles r1) then addSheet sid t else ret ()) r1 = (x, r1a) \<Longrightarrow> run r1 x r1a []"
        by (auto split: if_splits intro: run_addSheet run_ret)
      show "\<And>a r1a x r2. ?tail a r1a = (x, r2) \<Longrightarrow> run r1a x r2 [(t @ ''!A1'', h # d)]"
        by (rule tail)
    qed
    then show ?thesis by simp
  qed
  have "run r x r' (writes [GetSpreadsheet sid] @ [(t @ ''!A1'', h # d)])"
  proof (rule run_andThen [OF _ _ eq [unfolded updateWorksheet_def]])
    show "\<And>x r1. send (GetSpreadsheet sid) r = (x, r1) \<Longrightarrow> run r x r1 (writes [GetSpreadsheet sid])"
      by (rule run_send)
    show "\<And>a r1 x r2. (let existingSheets = titles r1; sheetExists = t \<in> set existingSheets
             in andThen (if \<not> sheetExists then addSheet sid t else ret ()) ?tail) r1 = (x, r2)
          \<Longrightarrow> run r1 x r2 [(t @ ''!A1'', h # d)]"
      by (rule mid) (simp add: Let_def)
  qed
  then show ?thesis by simp
qed

lemma individualWrites_Nil: "individualWrites rt es [] = []"
  by (simp add: individualWrites_def map_filter_simps)

lemma individualWrites_Cons:
  "individualWrites rt es (v # vs) =
     (case individualSheet rt es v of
        None \<Rightarrow> individualWrites rt es vs
      | Some (t, h, d) \<Rightarrow> (t @ ''!A1'', h # d) # individualWrites rt es vs)"
  by (simp add: individualWrites_def map_filter_simps split: option.splits)

lemma run_individualSheets:
  "individualSheets rt sid es vs r = (x, r') \<Longrightarrow> run r x r' (individualWrites rt es vs)"
proof (induction vs arbitrary: r x r')
  case Nil
  then show ?case by (simp add: individualWrites_Nil run_ret)
next
  case (Cons v vs)
  show ?case
  proof (cases "individualSheet rt es v")
    case None
    with Cons show ?thesis by (simp add: individualWrites_Cons)
  next
    case (Some w)
    obtain t h d where w: "w = (t, h, d)" by (cases w) auto
    from Cons.prems Some w
    have eq: "andThen (updateWorksheet sid t h d) (\<lambda>_. individualSheets rt sid es vs) r = (x, r')"
      by simp
    have "run r x r' ([(t @ ''!A1'', h # d)] @ individualWrites rt es vs)"
      by (rule run_andThen [OF _ _ eq]) (erule run_updateWorksheet, erule Cons.IH)
    with Some w show ?thesis by (simp add: individualWrites_Cons)
  qed
qed


lemma run_syncBody:
  assumes "syncBody rt cfg vs es r = (x, r')"
  shows "(calls r' = calls r \<and> (\<exists>e. x = Inl e)) \<or> run r x r' (plannedWrites rt vs es)"
proof (cases cfg)
  case None
  with assms show ?thesis by (auto simp: syncBody_def throw_def)
next
  case (Some c)
  show ?thesis
  proof (cases "spreadsheetId c")
    case None
    with Some assms show ?thesis by (auto simp: syncBody_def throw_def)
  next
    case sid: (Some sid)
    show ?thesis
    proof (cases "sid = [] \<or> credentials c = None")
      case True
      with Some sid assms show ?thesis by (auto simp: syncBody_def throw_def split: if_splits)
    next
      case False
      then obtain cr where cr: "credentials c = Some cr" and ne: "sid \<noteq> []" by auto
      let ?rest = "andThen (updateWorksheet sid ''Volunteers'' volunteersHeader (volunteersData rt vs es)) (\<lambda>_.
                      andThen (individualSheets rt sid es (sortedVolunteers rt vs)) (\<lambda>_.
                      ret (length vs, length es)))"
      from assms Some sid cr ne
      have eq: "andThen (createSheetsClient cr) (\<lambda>_. ?rest) r = (x, r')"
        by (simp add: syncBody_def)
      show ?thesis
      proof (cases "clientError r")
        case (Some e)
        with eq show ?thesis by (auto simp: andThen_def createSheetsClient_def)
      next
        case None
        let ?r0 = "r\<lparr>clientsBuilt := clientsBuilt r + 1\<rparr>"
        from None eq have eq': "?rest ?r0 = (x, r')"
          by (simp add: andThen_def createSheetsClient_def)
        have loop: "run r1 y r2 (individualWrites rt es (sortedVolunteers rt vs))"
          if "andThen (individualSheets rt sid es (sortedVolunteers rt vs)) (\<lambda>_. ret (length vs, length es)) r1 = (y, r2)"
          for r1 y r2
        proof -
          have "run r1 y r2 (individualWrites rt es (sortedVolunteers rt vs) @ [])"
            by (rule run_andThen [OF _ _ that]) (erule run_individualSheets, erule run_ret)
          then show ?thesis by simp
        qed
        have "run ?r0 x r' ([(''Volunteers'' @ ''!A1'', volunteersHeader # volunteersData rt vs es)]
                 @ individualWrites rt es (sortedVolunteers rt vs))"
          by (rule run_andThen [OF _ _ eq']) (erule run_updateWorksheet, erule loop)
        then have "run r x r' (plannedWrites rt vs es)"
          by (cases x) (simp_all add: plannedWrites_def run_def)
        then show ?thesis ..
      qed
    qed
  qed
qed

lemma sync_run:
  assumes "syncToGoogleSheets rt cfg vs es r = (res, r')"
  shows "\<exists>qs. calls r' = calls r @ qs \<and> prefix (writes qs) (plannedWrites rt vs es)
           \<and> (\<forall>k e. k < length qs \<longrightarrow> faults r (length (calls r) + k) = Some e
                 \<longrightarrow> Suc k = length qs \<and> res = Failure e)
           \<and> (\<forall>vc ec. res = Success vc ec \<longrightarrow> writes qs = plannedWrites rt vs es)"
proof (cases "syncBody rt cfg vs es r")
  case (Pair x r1)
  with assms have r1: "r1 = r'" and res: "res = (case x of Inl e \<Rightarrow> Failure e | Inr (vc, ec) \<Rightarrow> Success vc ec)"
    by (auto simp: syncToGoogleSheets_def split: sum.splits)
  from run_syncBody [OF Pair] show ?thesis
  proof
    assume "calls r1 = calls r \<and> (\<exists>e. x = Inl e)"
    with r1 res have "calls r' = calls r @ []" "\<exists>e. res = Failure e" by auto
    then show ?thesis by (intro exI [of _ "[]"]) auto
  next
    assume "run r x r1 (plannedWrites rt vs es)"
    then obtain qs where c: "calls r1 = calls r @ qs"
      and sh: "(case x of
            Inr _ \<Rightarrow> writes qs = plannedWrites rt vs es \<and> (\<forall>k<length qs. faults r (length (calls r) + k) = None)
          | Inl e \<Rightarrow> qs \<noteq> [] \<and> prefix (writes qs) (plannedWrites rt vs es)
                     \<and> faults r (length (calls r) + (length qs - 1)) = Some e
                     \<and> (\<forall>k<length qs - 1. faults r (length (calls r) + k) = None))"
      by (auto simp: run_def)
    show ?thesis
    proof (cases x)
      case (Inr p)
      with sh res c r1 show ?thesis
        by (intro exI [of _ qs]) (auto split: prod.splits)
    next
      case (Inl e)
      with sh have ne: "qs \<noteq> []" and p: "prefix (writes qs) (plannedWrites rt vs es)"
        and l: "faults r (length (calls r) + (length qs - 1)) = Some e"
        and n: "\<forall>k<length qs - 1. faults r (length (calls r) + k) = None" by simp_all
      have "Suc k = length qs \<and> res = Failure e'"
        if "k < length qs" "faults r (length (calls r) + k) = Some e'" for k e'
      proof -
        have "\<not> k < length qs - 1" using n that(2) by auto
        with that(1) have k: "k = length qs - 1" by simp
        with l that(2) have "e' = e" by simp
        with k ne res Inl show ?thesis by (cases qs) simp_all
      qed
      with c r1 p Inl res show ?thesis
        by (intro exI [of _ qs]) auto
    qed
  qed
qed

lemma individualWrites_filter:
  "individualWrites rt es vs =
     map (\<lambda>v. (volunteerSheetName (volunteer.name v) @ ''!A1'',
                eventsHeader # volunteerEventsData rt es v))
       (filter (\<lambda>v. volunteerEvents es v \<noteq> []) vs)"
  by (induction vs) (simp_all add: individualWrites_Nil individualWrites_Cons individualSheet_def)

lemma syncBody_result:
  assumes "syncBody rt cfg vs es r = (Inr p, r')"
  shows "p = (length vs, length es)
         \<and> (\<exists>c sid cr. cfg = Some c \<and> spreadsheetId c = Some sid \<and> sid \<noteq> []
               \<and> credentials c = Some cr)"
  using assms
  by (auto simp: syncBody_def andThen_def ret_def throw_def
           split: option.splits if_splits prod.splits sum.splits)

lemma sync_incomplete:
  assumes "cfg = None \<or> (\<exists>c. cfg = Some c \<and>
             (spreadsheetId c = None \<or> spreadsheetId c = Some [] \<or> credentials c = None))"
  shows "syncToGoogleSheets rt cfg vs es r = (Failure incompleteMessage, r)"
  using assms
  by (auto simp: syncToGoogleSheets_def syncBody_def throw_def split: option.splits)

text \<open>The whole log of a run, rows left out.\<close>

lemma log_updateWorksheet:
  assumes "updateWorksheet sid t h d r = (x, r')"
  shows "\<exists>qs. calls r' = calls r @ qs
           \<and> prefix (map withoutRows qs) (worksheetRequests (titles r) sid t)
           \<and> (\<forall>y. x = Inr y \<longrightarrow>
                 map withoutRows qs = worksheetRequests (titles r) sid t
                 \<and> titles r' = (if t \<in> set (titles r) then titles r else titles r @ [t]))"
  using assms
  by (auto simp: updateWorksheet_def andThen_def send_def addSheet_def ret_def
                 worksheetRequests_def Let_def
           split: option.splits if_splits)

lemma log_individualSheets:
  "individualSheets rt sid es vs r = (x, r') \<Longrightarrow>
   \<exists>qs. calls r' = calls r @ qs
      \<and> prefix (map withoutRows qs)
          (sheetsRequests (titles r) sid
             (map (\<lambda>u. volunteerSheetName (volunteer.name u))
                (filter (\<lambda>u. volunteerEvents es u \<noteq> []) vs)))
      \<and> (\<forall>y. x = Inr y \<longrightarrow>
            map withoutRows qs =
              sheetsRequests (titles r) sid
                (map (\<lambda>u. volunteerSheetName (volunteer.name u))
                   (filter (\<lambda>u. volunteerEvents es u \<noteq> []) vs)))"
proof (induction vs arbitrary: r)
  case Nil
  then show ?case by (simp add: ret_def)
next
  case (Cons v vs)
  let ?ts = "map (\<lambda>u. volunteerSheetName (volunteer.name u))
               (filter (\<lambda>u. volunteerEvents es u \<noteq> []) vs)"
  show ?case
  proof (cases "volunteerEvents es v = []")
    case True
    with Cons.prems have "individualSheets rt sid es vs r = (x, r')"
      by (simp add: individualSheet_def)
    from Cons.IH [OF this] True show ?thesis by simp
  next
    case False
    let ?t = "volunteerSheetName (volunteer.name v)"
    let ?W = "worksheetRequests (titles r) sid ?t"
    let ?T = "if ?t \<in> set (titles r) then titles r else titles r @ [?t]"
    from False Cons.prems
    have eq: "andThen (updateWorksheet sid ?t eventsHeader (volunteerEventsData rt es v))
                (\<lambda>_. individualSheets rt sid es vs) r = (x, r')"
      by (simp add: individualSheet_def)
    obtain y r1 where first: "updateWorksheet sid ?t eventsHeader (volunteerEventsData rt es v) r = (y, r1)"
      by (cases "updateWorksheet sid ?t eventsHeader (volunteerEventsData rt es v) r") auto
    from log_updateWorksheet [OF first] obtain qs1 where c1: "calls r1 = calls r @ qs1"
      and p1: "prefix (map withoutRows qs1) ?W"
      and s1: "\<forall>z. y = Inr z \<longrightarrow> map withoutRows qs1 = ?W \<and> titles r1 = ?T"
      by blast
    have script: "sheetsRequests (titles r) sid (?t # ?ts) = ?W @ sheetsRequests ?T sid ?ts"
      by simp
    show ?thesis
    proof (cases y)
      case (Inl e)
      with eq first have "x = Inl e" "r' = r1" by (simp_all add: andThen_def)
      moreover have "prefix (map withoutRows qs1) (?W @ sheetsRequests ?T sid ?ts)"
        using p1 by (rule prefix_prefix)
      ultimately show ?thesis using c1 False script
        by (intro exI [of _ qs1]) simp
    next
      case (Inr z)
      with eq first have rest: "individualSheets rt sid es vs r1 = (x, r')"
        by (simp add: andThen_def)
      from s1 Inr have w1: "map withoutRows qs1 = ?W" and t1: "titles r1 = ?T" by simp_all
      from Cons.IH [OF rest] t1 obtain qs2 where c2: "calls r' = calls r1 @ qs2"
        and p2: "prefix (map withoutRows qs2) (sheetsRequests ?T sid ?ts)"
        and s2: "\<forall>y. x = Inr y \<longrightarrow> map withoutRows qs2 = sheetsRequests ?T sid ?ts"
        by auto
      have "calls r' = calls r @ (qs1 @ qs2)" using c1 c2 by simp
      moreover have "prefix (map withoutRows (qs1 @ qs2)) (?W @ sheetsRequests ?T sid ?ts)"
        using w1 p2 by simp
      moreover have "\<forall>y. x = Inr y \<longrightarrow>
          map withoutRows (qs1 @ qs2) = ?W @ sheetsRequests ?T sid ?ts"
        using w1 s2 by simp
      ultimately show ?thesis using False script
        by (intro exI [of _ "qs1 @ qs2"]) simp
    qed
  qed
qed

lemma log_syncBody:
  assumes "syncBody rt cfg vs es r = (x, r')" "cfg = Some c" "spreadsheetId c = Some sid"
  shows "\<exists>qs. calls r' = calls r @ qs
           \<and> prefix (map withoutRows qs)
               (sheetsRequests (titles r) sid
                  (''Volunteers'' # map (\<lambda>u. volunteerSheetName (volunteer.name u))
                     (filter (\<lambda>u. volunteerEvents es u \<noteq> []) (sortedVolunteers rt vs))))
           \<and> (\<forall>y. x = Inr y \<longrightarrow>
                 map withoutRows qs =
                   sheetsRequests (titles r) sid
                     (''Volunteers'' # map (\<lambda>u. volunteerSheetName (volunteer.name u))
                        (filter (\<lambda>u. volunteerEvents es u \<noteq> []) (sortedVolunteers rt vs))))"
proof (cases "sid = [] \<or> credentials c = None \<or> clientError r \<noteq> None")
  case True
  with assms have "calls r' = calls r @ []" "\<exists>e. x = Inl e"
    by (auto simp: syncBody_def throw_def andThen_def createSheetsClient_def
             split: if_splits option.splits)
  then show ?thesis by (intro exI [of _ "[]"]) auto
next
  case False
  then obtain cr where cr: "credentials c = Some cr" and ne: "sid \<noteq> []"
    and ok: "clientError r = None" by auto
  let ?ts = "map (\<lambda>u. volunteerSheetName (volunteer.name u))
               (filter (\<lambda>u. volunteerEvents es u \<noteq> []) (sortedVolunteers rt vs))"
  let ?r0 = "r\<lparr>clientsBuilt := clientsBuilt r + 1\<rparr>"
  let ?W = "worksheetRequests (titles r) sid ''Volunteers''"
  let ?T = "if ''Volunteers'' \<in> set (titles r) then titles r else titles r @ [''Volunteers'']"
  let ?loop = "andThen (individualSheets rt sid es (sortedVolunteers rt vs))
                 (\<lambda>_. ret (length vs, length es))"
  from assms cr ne ok
  have eq: "andThen (updateWorksheet sid ''Volunteers'' volunteersHeader (volunteersData rt vs es))
              (\<lambda>_. ?loop) ?r0 = (x, r')"
    by (simp add: syncBody_def andThen_def createSheetsClient_def)
  obtain y r1 where first:
    "updateWorksheet sid ''Volunteers'' volunteersHeader (volunteersData rt vs es) ?r0 = (y, r1)"
    by (cases "updateWorksheet sid ''Volunteers'' volunteersHeader (volunteersData rt vs es) ?r0") auto
  from log_updateWorksheet [OF first] obtain qs1 where c1: "calls r1 = calls r @ qs1"
    and p1: "prefix (map withoutRows qs1) ?W"
    and s1: "\<forall>z. y = Inr z \<longrightarrow> map withoutRows qs1 = ?W \<and> titles r1 = ?T"
    by auto
  have script: "sheetsRequests (titles r) sid (''Volunteers'' # ?ts) = ?W @ sheetsRequests ?T sid ?ts"
    by simp
  show ?thesis
  proof (cases y)
    case (Inl e)
    with eq first have "x = Inl e" "r' = r1" by (simp_all add: andThen_def)
    moreover have "prefix (map withoutRows qs1) (?W @ sheetsRequests ?T sid ?ts)"
      using p1 by (rule prefix_prefix)
    ultimately show ?thesis using c1 script
      by (intro exI [of _ qs1]) simp
  next
    case (Inr z)
    with eq first have rest: "?loop r1 = (x, r')" by (simp add: andThen_def)
    obtain y2 r2 where loop: "individualSheets rt sid es (sortedVolunteers rt vs) r1 = (y2, r2)"
      by (cases "individualSheets rt sid es (sortedVolunteers rt vs) r1") auto
    with rest have r2: "r2 = r'" and x: "(\<exists>e. x = Inl e \<and> y2 = Inl e) \<or> (\<exists>p u. x = Inr p \<and> y2 = Inr u)"
      by (auto simp: andThen_def ret_def split: sum.splits)
    from s1 Inr have w1: "map withoutRows qs1 = ?W" and t1: "titles r1 = ?T" by simp_all
    from log_individualSheets [OF loop] t1 r2 obtain qs2 where c2: "calls r' = calls r1 @ qs2"
      and p2: "prefix (map withoutRows qs2) (sheetsRequests ?T sid ?ts)"
      and s2: "\<forall>u. y2 = Inr u \<longrightarrow> map withoutRows qs2 = sheetsRequests ?T sid ?ts"
      by auto
    have "calls r' = calls r @ (qs1 @ qs2)" using c1 c2 by simp
    moreover have "prefix (map withoutRows (qs1 @ qs2)) (?W @ sheetsRequests ?T sid ?ts)"
      using w1 p2 by simp
    moreover have "\<forall>p. x = Inr p \<longrightarrow>
        map withoutRows (qs1 @ qs2) = ?W @ sheetsRequests ?T sid ?ts"
      using w1 s2 x by auto
    ultimately show ?thesis using script
      by (intro exI [of _ "qs1 @ qs2"]) simp
  qed
qed

lemma sync_log:
  assumes "syncToGoogleSheets rt cfg vs es r = (res, r')" "cfg = Some c" "spreadsheetId c = Some sid"
  shows "\<exists>qs. calls r' = calls r @ qs
           \<and> prefix (map withoutRows qs)
               (sheetsRequests (titles r) sid
                  (''Volunteers'' # map (\<lambda>u. volunteerSheetName (volunteer.name u))
                     (filter (\<lambda>u. volunteerEvents es u \<noteq> []) (sortedVolunteers rt vs))))
           \<and> (\<forall>vc ec. res = Success vc ec \<longrightarrow>
                 map withoutRows qs =
                   sheetsRequests (titles r) sid
                     (''Volunteers'' # map (\<lambda>u. volunteerSheetName (volunteer.name u))
                        (filter (\<lambda>u. volunteerEvents es u \<noteq> []) (sortedVolunteers rt vs))))"
proof (cases "syncBody rt cfg vs es r")
  case (Pair x r1)
  with assms(1) have r1: "r1 = r'"
    and res: "res = (case x of Inl e \<Rightarrow> Failure e | Inr (vc, ec) \<Rightarrow> Success vc ec)"
    by (auto simp: syncToGoogleSheets_def split: sum.splits)
  from res have "\<exists>y. x = Inr y" if "res = Success vc ec" for vc ec
    using that by (cases x) auto
  with log_syncBody [OF Pair assms(2,3)] r1 show ?thesis by blast
qed

subsection \<open>Worksheet titles\<close>

lemma replaceNonAlnum_length: "length (replaceNonAlnum s) = length s"
  by (simp add: replaceNonAlnum_def)

text \<open>
  C7, as stated, fails on the code: for a name of 26 letters the rule "replace, truncate
  to 30, prefix" gives a title of 38 characters that keeps the whole name, while the
  code cuts the whole title, prefix included, to 30 characters.
\<close>

theorem volunteerSheetName_differs_from_spec_order:
  "volunteerSheetName ''ABCDEFGHIJKLMNOPQRSTUVWXYZ'' = ''Volunteer - ABCDEFGHIJKLMNOPQR''
   \<and> spec_sheetTitle ''ABCDEFGHIJKLMNOPQRSTUVWXYZ'' = ''Volunteer - ABCDEFGHIJKLMNOPQRSTUVWXYZ''
   \<and> volunteerSheetName ''ABCDEFGHIJKLMNOPQRSTUVWXYZ''
       \<noteq> spec_sheetTitle ''ABCDEFGHIJKLMNOPQRSTUVWXYZ''"
  by (simp add: volunteerSheetName_def spec_sheetTitle_def replaceNonAlnum_def isAlnum_def)

text \<open>
  C7 (amended): the title is \<open>Volunteer - \<close> followed by the name with every character
  outside \<open>a-z\<close>, \<open>A-Z\<close>, \<open>0-9\<close> replaced by a space, and the truncation to 30 characters
  applies to the whole title, so that exactly the first 18 characters of the name
  survive; the title never exceeds 30 characters, and the name \<open>O'Brien/Smith\<close> yields
  \<open>Volunteer - O Brien Smith\<close>.
\<close>

theorem volunteerSheetName_title:
  "volunteerSheetName nm = ''Volunteer - '' @ take 18 (replaceNonAlnum nm)
   \<and> length (volunteerSheetName nm) = min 30 (12 + length nm)
   \<and> replaceNonAlnum nm = map (\<lambda>c. if isAlnum c then c else CHR '' '') nm
   \<and> volunteerSheetName (''O'' @ [CHR 0x27] @ ''Brien/Smith'') = ''Volunteer - O Brien Smith''"
  by (simp add: volunteerSheetName_def replaceNonAlnum_def isAlnum_def)

subsection \<open>The order of the writes and the first failure\<close>



subsection \<open>The counts of a successful sync\<close>

text \<open>
  C10: a sync that succeeds returns the lengths of the two input arrays as
  \<open>volunteersCount\<close> and \<open>eventsCount\<close>, whatever the events refer to, and the handler
  of \<^verbatim>\<open>POST /api/sync/sheets\<close> answers 200 with the same two lengths.
\<close>

theorem sync_success_counts:
  assumes "syncToGoogleSheets rt (config.sheetsConfig cf) vs es r = (Success vc ec, r')"
  shows "vc = length vs \<and> ec = length es
         \<and> (\<exists>sc sid. config.sheetsConfig cf = Some sc \<and> spreadsheetId sc = Some sid
               \<and> postSyncSheets rt cf vs es r =
                   (Response 200 (JObj
                      [(''success'', JBool True),
                       (''message'', JStr (''Synced with Google Sheets successfully. Spreadsheet ID: '' @ sid)),
                       (''newData'', JObj [(''volunteers'', JNum (of_nat (length vs))),
                                           (''events'', JNum (of_nat (length es)))])]), r'))"
proof -
  obtain x r1 where b: "syncBody rt (config.sheetsConfig cf) vs es r = (x, r1)"
    by (cases "syncBody rt (config.sheetsConfig cf) vs es r") auto
  with assms obtain p where x: "x = Inr p" and r1: "r1 = r'" and p: "p = (vc, ec)"
    by (auto simp: syncToGoogleSheets_def split: sum.splits prod.splits)
  from syncBody_result [OF b [unfolded x]] p
  obtain c sid cr where n: "vc = length vs" "ec = length es"
    and c: "config.sheetsConfig cf = Some c" "spreadsheetId c = Some sid" "sid \<noteq> []"
    by auto
  from assms c have "postSyncSheets rt cf vs es r =
      (syncResponse c sid (length vs) (length es) (Success vc ec), r')"
    by (simp add: postSyncSheets_def)
  with n c show ?thesis by (simp add: syncResponse_def)
qed

theorem sync_success_counts_witness:
  "fst (syncToGoogleSheets exampleRuntime (config.sheetsConfig exampleConfig) exampleVolunteers
          exampleEvents quietRemote) = Success 3 4
   \<and> length exampleVolunteers = 3 \<and> length exampleEvents = 4
   \<and> length (filter (\<lambda>v. volunteerEvents exampleEvents v = []) exampleVolunteers) = 1
   \<and> length (filter (\<lambda>e. volunteerId e \<notin> volunteer.id ` set exampleVolunteers)
               exampleEvents) = 1
   \<and> fst (postSyncSheets exampleRuntime exampleConfig exampleVolunteers exampleEvents quietRemote)
      = Response 200 (JObj
          [(''success'', JBool True),
           (''message'',
            JStr ''Synced with Google Sheets successfully. Spreadsheet ID: sheet-1''),
           (''newData'', JObj [(''volunteers'', JNum 3), (''events'', JNum 4)])])"
proof -
  let ?run = "syncToGoogleSheets exampleRuntime (config.sheetsConfig exampleConfig)
                exampleVolunteers exampleEvents quietRemote"
  have f: "fst ?run = Success 3 4" by code_simp
  then have h: "?run = (Success 3 4, snd ?run)"
    by (simp add: prod_eq_iff)
  have l: "length exampleVolunteers = 3" "length exampleEvents = 4"
    "length (filter (\<lambda>v. volunteerEvents exampleEvents v = []) exampleVolunteers) = 1"
    "length (filter (\<lambda>e. volunteerId e \<notin> volunteer.id ` set exampleVolunteers)
               exampleEvents) = 1"
    by code_simp+
  have s: "config.sheetsConfig exampleConfig = Some exampleSheetsConfig"
    "spreadsheetId exampleSheetsConfig = Some ''sheet-1''"
    by (simp_all add: exampleConfig_def exampleSheetsConfig_def)
  from sync_success_counts [OF h] s l
  have "fst (postSyncSheets exampleRuntime exampleConfig exampleVolunteers exampleEvents
               quietRemote)
      = Response 200 (JObj
          [(''success'', JBool True),
           (''message'',
            JStr ''Synced with Google Sheets successfully. Spreadsheet ID: sheet-1''),
           (''newData'', JObj [(''volunteers'', JNum 3), (''events'', JNum 4)])])"
    by auto
  with f l show ?thesis by simp
qed

subsection \<open>An incomplete configuration\<close>

text \<open>
  C5: a sync called without a configuration, without a spreadsheet id (absent or empty)
  or without credentials returns the failure result with the configuration error and
  leaves the remote as it was: no client is built and no request is sent. The handler
  answers 400 without calling the sync when the configuration or the spreadsheet id is
  missing, and 500 with the configuration error when only the credentials are.
\<close>

theorem sync_incomplete_config_no_remote_call:
  assumes "cfg = None \<or> (\<exists>c. cfg = Some c \<and>
             (spreadsheetId c = None \<or> spreadsheetId c = Some [] \<or> credentials c = None))"
  shows "syncToGoogleSheets rt cfg vs es r =
           (Failure ''Google Sheets configuration is incomplete'', r)
         \<and> calls (snd (syncToGoogleSheets rt cfg vs es r)) = calls r
         \<and> clientsBuilt (snd (syncToGoogleSheets rt cfg vs es r)) = clientsBuilt r
         \<and> postSyncSheets rt \<lparr>adminPassword = pw, sheetsConfig = cfg\<rparr> vs es r =
             (if cfg = None
                 \<or> (\<exists>c. cfg = Some c \<and> (spreadsheetId c = None \<or> spreadsheetId c = Some []))
              then Response 400 (JObj
                [(''success'', JBool False), (''error'', JStr ''Google Sheets not configured'')])
              else Response 500 (JObj
                [(''success'', JBool False),
                 (''error'', JStr ''Google Sheets configuration is incomplete''),
                 (''serviceEmail'', JStr ''the service account email'')]),
              r)"
proof -
  have a: "syncToGoogleSheets rt cfg vs es r = (Failure incompleteMessage, r)"
    by (rule sync_incomplete [OF assms])
  have b: "postSyncSheets rt \<lparr>adminPassword = pw, sheetsConfig = cfg\<rparr> vs es r =
             (if cfg = None
                 \<or> (\<exists>c. cfg = Some c \<and> (spreadsheetId c = None \<or> spreadsheetId c = Some []))
              then Response 400 (JObj
                [(''success'', JBool False), (''error'', JStr ''Google Sheets not configured'')])
              else Response 500 (JObj
                [(''success'', JBool False),
                 (''error'', JStr ''Google Sheets configuration is incomplete''),
                 (''serviceEmail'', JStr ''the service account email'')]),
              r)"
  proof (cases cfg)
    case None
    then show ?thesis by (simp add: postSyncSheets_def notConfigured_def)
  next
    case (Some c)
    show ?thesis
    proof (cases "spreadsheetId c = None \<or> spreadsheetId c = Some []")
      case True
      with Some show ?thesis by (auto simp: postSyncSheets_def notConfigured_def)
    next
      case False
      then obtain sid where sid: "spreadsheetId c = Some sid" "sid \<noteq> []" by auto
      with assms Some have cr: "credentials c = None" by auto
      from a Some sid cr show ?thesis
        by (simp add: postSyncSheets_def syncResponse_def serviceEmail_def incompleteMessage_def)
    qed
  qed
  from a b show ?thesis by (simp add: incompleteMessage_def)
qed

theorem sync_incomplete_config_no_remote_call_witness:
  "syncToGoogleSheets exampleRuntime
      (Some \<lparr>spreadsheetId = Some ''sheet-1'', credentials = None\<rparr>)
      exampleVolunteers exampleEvents quietRemote
    = (Failure ''Google Sheets configuration is incomplete'', quietRemote)
   \<and> calls quietRemote = [] \<and> clientsBuilt quietRemote = 0
   \<and> postSyncSheets exampleRuntime
        \<lparr>adminPassword = ''admin123'',
         sheetsConfig = Some \<lparr>spreadsheetId = Some ''sheet-1'', credentials = None\<rparr>\<rparr>
        exampleVolunteers exampleEvents quietRemote
      = (Response 500 (JObj
           [(''success'', JBool False),
            (''error'', JStr ''Google Sheets configuration is incomplete''),
            (''serviceEmail'', JStr ''the service account email'')]), quietRemote)
   \<and> postSyncSheets exampleRuntime \<lparr>adminPassword = ''admin123'', sheetsConfig = None\<rparr>
        exampleVolunteers exampleEvents quietRemote
      = (Response 400 (JObj
           [(''success'', JBool False), (''error'', JStr ''Google Sheets not configured'')]),
         quietRemote)"
proof -
  let ?c = "\<lparr>spreadsheetId = Some ''sheet-1'', credentials = None\<rparr>"
  have h: "Some ?c = None \<or> (\<exists>c. Some ?c = Some c \<and>
             (spreadsheetId c = None \<or> spreadsheetId c = Some [] \<or> credentials c = None))"
    by simp
  have n: "(None :: sheetsConfig option) = None \<or> (\<exists>c. None = Some c \<and>
             (spreadsheetId c = None \<or> spreadsheetId c = Some [] \<or> credentials c = None))"
    by simp
  note A = sync_incomplete_config_no_remote_call
             [OF h, of exampleRuntime exampleVolunteers exampleEvents quietRemote "''admin123''"]
  note B = sync_incomplete_config_no_remote_call
             [OF n, of exampleRuntime exampleVolunteers exampleEvents quietRemote "''admin123''"]
  have q: "calls quietRemote = []" "clientsBuilt quietRemote = 0"
    by (simp_all add: quietRemote_def)
  from A B q show ?thesis by simp
qed

subsection \<open>The summary worksheet\<close>

lemma consistentOn_image:
  "consistentOn cmp (f ` S) \<Longrightarrow> consistentOn (\<lambda>a b. cmp (f a) (f b)) S"
  unfolding consistentOn_def by blast

lemma map_enumerate_nth:
  "map (\<lambda>(i, x). f i x) (enumerate 0 xs) = map (\<lambda>i. f i (xs ! i)) [0..<length xs]"
  by (rule nth_equalityI) (simp_all add: nth_enumerate_eq)

lemma map_upt_Suc_shift: "map (\<lambda>i. g (i + 1)) [0..<n] = map g [1..<n + 1]"
proof -
  have "map g (map Suc [0..<n]) = map g [Suc 0..<Suc n]"
    by (simp only: map_Suc_upt)
  then show ?thesis by (simp add: comp_def)
qed

lemma sortedVolunteers_sorted:
  assumes "consistentOn (localeCompare rt) (toLowerCase ` volunteer.name ` set vs)"
  shows "sorted_wrt (\<lambda>a b. localeCompare rt (toLowerCase (volunteer.name a))
                                (toLowerCase (volunteer.name b)) \<le> 0) (sortedVolunteers rt vs)"
proof -
  have "consistentOn (localeCompare rt) ((\<lambda>v. toLowerCase (volunteer.name v)) ` set vs)"
    using assms by (simp add: image_image)
  then have "consistentOn (compareNames rt) (set vs)"
    unfolding compareNames_def by (rule consistentOn_image)
  from sorted_sortBy [OF this] show ?thesis
    by (simp add: sortedVolunteers_def compareNames_def)
qed

lemma volunteersData_rows:
  "volunteersData rt vs es =
     map (\<lambda>i. volunteerRow es i (sortedVolunteers rt vs ! i)) [0..<length vs]"
  by (simp add: volunteersData_def map_enumerate_nth sortedVolunteers_def length_sortBy)

lemma volunteersData_ids:
  "map hd (volunteersData rt vs es) = map NumCell [1..<length vs + 1]"
proof -
  have "map hd (volunteersData rt vs es) = map (\<lambda>i. NumCell (i + 1)) [0..<length vs]"
    by (simp add: volunteersData_rows volunteerRow_def)
  then show ?thesis by (simp only: map_upt_Suc_shift)
qed

text \<open>
  C1: the \<open>Volunteers\<close> worksheet has the header \<open>ID, Name, Phone, Email, Total Hours\<close>
  and one row per volunteer; the rows follow the volunteers rearranged in ascending order
  of their lower-cased names under the collation, which is assumed consistent on these
  names; row \<open>i\<close> (counted from 0) carries the display ID \<open>i + 1\<close>, so the IDs are
  \<open>1..N\<close> whatever the stored ids are; and a sync that succeeds has written exactly
  these rows to \<open>Volunteers!A1\<close> as its first write.
\<close>

theorem volunteers_sheet_sorted_with_sequential_ids:
  assumes "consistentOn (localeCompare rt) (toLowerCase ` volunteer.name ` set vs)"
  shows "volunteersHeader =
           [StrCell ''ID'', StrCell ''Name'', StrCell ''Phone'', StrCell ''Email'', StrCell ''Total Hours'']
         \<and> mset (sortedVolunteers rt vs) = mset vs
         \<and> sorted_wrt (\<lambda>a b. localeCompare rt (toLowerCase (volunteer.name a))
                                   (toLowerCase (volunteer.name b)) \<le> 0) (sortedVolunteers rt vs)
         \<and> volunteersData rt vs es =
             map (\<lambda>i. [NumCell (i + 1),
                        StrCell (volunteer.name (sortedVolunteers rt vs ! i)),
                        StrCell (phone (sortedVolunteers rt vs ! i)),
                        StrCell (email (sortedVolunteers rt vs ! i)),
                        StrCell (toFixed2 (totalHours es (sortedVolunteers rt vs ! i)))])
               [0..<length vs]
         \<and> map hd (volunteersData rt vs es) = map NumCell [1..<length vs + 1]
         \<and> (\<forall>cfg r vc ec r'. syncToGoogleSheets rt cfg vs es r = (Success vc ec, r') \<longrightarrow>
               (\<exists>qs. calls r' = calls r @ qs
                  \<and> hd (writes qs) = (''Volunteers!A1'', volunteersHeader # volunteersData rt vs es)))"
proof -
  have run: "\<exists>qs. calls r' = calls r @ qs
                  \<and> hd (writes qs) = (''Volunteers!A1'', volunteersHeader # volunteersData rt vs es)"
    if "syncToGoogleSheets rt cfg vs es r = (Success vc ec, r')" for cfg r vc ec r'
  proof -
    from sync_run [OF that] obtain qs where "calls r' = calls r @ qs"
      "writes qs = plannedWrites rt vs es" by blast
    then show ?thesis by (auto simp: plannedWrites_def)
  qed
  have hdr: "volunteersHeader =
           [StrCell ''ID'', StrCell ''Name'', StrCell ''Phone'', StrCell ''Email'', StrCell ''Total Hours'']"
    by (simp add: volunteersHeader_def)
  have perm: "mset (sortedVolunteers rt vs) = mset vs"
    by (simp add: sortedVolunteers_def mset_sortBy)
  have rows: "volunteersData rt vs es =
             map (\<lambda>i. [NumCell (i + 1),
                        StrCell (volunteer.name (sortedVolunteers rt vs ! i)),
                        StrCell (phone (sortedVolunteers rt vs ! i)),
                        StrCell (email (sortedVolunteers rt vs ! i)),
                        StrCell (toFixed2 (totalHours es (sortedVolunteers rt vs ! i)))])
               [0..<length vs]"
    by (simp only: volunteersData_rows volunteerRow_def)
  from hdr perm sortedVolunteers_sorted [OF assms] rows volunteersData_ids [of rt vs es] run
  show ?thesis by blast
qed

theorem volunteers_sheet_sorted_with_sequential_ids_witness:
  "consistentOn (localeCompare exampleRuntime) (toLowerCase ` volunteer.name ` set exampleVolunteers)
   \<and> exampleVolunteers = [bob, carol, alice]
   \<and> sortedVolunteers exampleRuntime exampleVolunteers = [alice, bob, carol]
   \<and> sorted_wrt (\<lambda>a b. localeCompare exampleRuntime (toLowerCase (volunteer.name a))
                             (toLowerCase (volunteer.name b)) \<le> 0)
        (sortedVolunteers exampleRuntime exampleVolunteers)
   \<and> volunteersData exampleRuntime exampleVolunteers exampleEvents =
        [[NumCell 1, StrCell ''Alice'', StrCell ''555-0101'', StrCell ''alice@example.org'', StrCell ''0.00''],
         [NumCell 2, StrCell ''bob'', StrCell ''555-0102'', StrCell ''bob@example.org'', StrCell ''3.50''],
         [NumCell 3, StrCell ''Carol'', StrCell ''555-0103'', StrCell ''carol@example.org'', StrCell ''0.00'']]
   \<and> fst (syncToGoogleSheets exampleRuntime (Some exampleSheetsConfig) exampleVolunteers exampleEvents
           quietRemote) = Success 3 4
   \<and> (\<exists>qs. calls (snd (syncToGoogleSheets exampleRuntime (Some exampleSheetsConfig) exampleVolunteers
                          exampleEvents quietRemote)) = calls quietRemote @ qs
          \<and> hd (writes qs) =
              (''Volunteers!A1'',
               volunteersHeader # volunteersData exampleRuntime exampleVolunteers exampleEvents))"
proof -
  let ?run = "syncToGoogleSheets exampleRuntime (Some exampleSheetsConfig) exampleVolunteers
                exampleEvents quietRemote"
  have h: "consistentOn (localeCompare exampleRuntime)
             (toLowerCase ` volunteer.name ` set exampleVolunteers)"
    by code_simp
  note inst = volunteers_sheet_sorted_with_sequential_ids [OF h, of exampleEvents]
  have s: "sortedVolunteers exampleRuntime exampleVolunteers = [alice, bob, carol]"
    by code_simp
  have d: "volunteersData exampleRuntime exampleVolunteers exampleEvents =
        [[NumCell 1, StrCell ''Alice'', StrCell ''555-0101'', StrCell ''alice@example.org'', StrCell ''0.00''],
         [NumCell 2, StrCell ''bob'', StrCell ''555-0102'', StrCell ''bob@example.org'', StrCell ''3.50''],
         [NumCell 3, StrCell ''Carol'', StrCell ''555-0103'', StrCell ''carol@example.org'', StrCell ''0.00'']]"
    by code_simp
  have f: "fst ?run = Success 3 4" by code_simp
  then have e: "?run = (Success 3 4, snd ?run)" by (simp add: prod_eq_iff)
  from inst have o: "sorted_wrt (\<lambda>a b. localeCompare exampleRuntime (toLowerCase (volunteer.name a))
                             (toLowerCase (volunteer.name b)) \<le> 0)
        (sortedVolunteers exampleRuntime exampleVolunteers)"
    by blast
  from inst e have w: "\<exists>qs. calls (snd ?run) = calls quietRemote @ qs
          \<and> hd (writes qs) =
              (''Volunteers!A1'',
               volunteersHeader # volunteersData exampleRuntime exampleVolunteers exampleEvents)"
    by blast
  show ?thesis using h s d f o w by (simp add: exampleVolunteers_def)
qed

subsection \<open>The individual worksheets\<close>

lemma compareDates_keyed:
  assumes "\<forall>e\<in>S. dateParse rt (date e) \<noteq> None"
  shows "keyedBy (compareDates rt) (timeValue rt) S"
  unfolding keyedBy_def compareDates_def timeValue_def
  using assms by (auto split: option.splits)

lemma mset_sortedEvents: "mset (sortedEvents rt es v) = mset (volunteerEvents es v)"
  by (simp add: sortedEvents_def mset_engineSort)

lemma length_sortedEvents: "length (sortedEvents rt es v) = length (volunteerEvents es v)"
  using mset_sortedEvents [of rt es v] by (metis size_mset)

lemma sortedEvents_sort_key:
  assumes "\<forall>e\<in>set es. volunteerId e = volunteer.id v \<longrightarrow> dateParse rt (date e) \<noteq> None"
  shows "sortedEvents rt es v = sort_key (timeValue rt) (volunteerEvents es v)"
proof -
  have "\<forall>e\<in>set (volunteerEvents es v). dateParse rt (date e) \<noteq> None"
    using assms by (simp add: volunteerEvents_def)
  from engineSort_sort_key [OF compareDates_keyed [OF this]]
  show ?thesis by (simp add: sortedEvents_def)
qed

lemma volunteerEventsData_rows:
  "volunteerEventsData rt es v =
     map (\<lambda>i. eventRow i (sortedEvents rt es v ! i)) [0..<length (volunteerEvents es v)]"
  by (simp add: volunteerEventsData_def map_enumerate_nth length_sortedEvents)

lemma volunteerEventsData_ids:
  "map hd (volunteerEventsData rt es v) = map NumCell [1..<length (volunteerEvents es v) + 1]"
proof -
  have "map hd (volunteerEventsData rt es v)
      = map (\<lambda>i. NumCell (i + 1)) [0..<length (volunteerEvents es v)]"
    by (simp add: volunteerEventsData_rows eventRow_def)
  then show ?thesis by (simp only: map_upt_Suc_shift)
qed

lemma volunteerEventsData_cells:
  "map tl (volunteerEventsData rt es v) = map eventCells (sortedEvents rt es v)"
proof -
  have "map tl (map (\<lambda>(eventIndex, e). eventRow eventIndex e) xs) = map eventCells (map snd xs)"
    for xs :: "(nat \<times> event) list"
    by (induction xs) (auto simp: eventRow_def eventCells_def)
  then have "map tl (volunteerEventsData rt es v)
      = map eventCells (map snd (enumerate 0 (sortedEvents rt es v)))"
    by (simp only: volunteerEventsData_def)
  then show ?thesis by (simp only: map_snd_enumerate)
qed

lemma volunteerEventsData_lists:
  "listsEvents rt (volunteerEvents es v) (volunteerEventsData rt es v)"
proof -
  have "mset (map tl (volunteerEventsData rt es v)) = mset (map eventCells (volunteerEvents es v))"
    by (simp only: volunteerEventsData_cells mset_map mset_sortedEvents)
  moreover have "map tl (volunteerEventsData rt es v)
      = map eventCells (sort_key (timeValue rt) (volunteerEvents es v))"
    if "\<forall>e\<in>set (volunteerEvents es v). dateParse rt (date e) \<noteq> None"
  proof -
    from that have "\<forall>e\<in>set es. volunteerId e = volunteer.id v \<longrightarrow> dateParse rt (date e) \<noteq> None"
      by (simp add: volunteerEvents_def)
    from sortedEvents_sort_key [OF this] show ?thesis
      by (simp only: volunteerEventsData_cells)
  qed
  ultimately show ?thesis
    unfolding listsEvents_def using volunteerEventsData_ids [of rt es v] by blast
qed

text \<open>
  C3, as stated, fails on the code: the dates are not checked, and beside a date that does
  not parse the comparator is 0, so that the sort leaves Dana's three events as they are
  stored. The sync succeeds and writes the row of 2024-03-01 before the row of
  2023-12-24, although both dates parse.
\<close>

theorem undated_event_leaves_rows_out_of_date_order:
  "map (\<lambda>e. dateParse exampleRuntime (date e)) (volunteerEvents undatedEvents dana)
     = [Some 1709251200000, None, Some 1703376000000]
   \<and> fst (syncToGoogleSheets exampleRuntime (Some exampleSheetsConfig) [dana] undatedEvents
           quietRemote) = Success 1 3
   \<and> tl (writes (calls (snd (syncToGoogleSheets exampleRuntime (Some exampleSheetsConfig) [dana]
                                undatedEvents quietRemote))))
     = [(''Volunteer - Dana!A1'',
         [[StrCell ''ID'', StrCell ''Event'', StrCell ''Location'', StrCell ''Date'', StrCell ''Hours''],
          [NumCell 1, StrCell ''Food drive'', StrCell ''Hall'', StrCell ''2024-03-01'', StrCell ''2''],
          [NumCell 2, StrCell ''Planning'', StrCell ''Office'', StrCell ''TBD'', StrCell ''1''],
          [NumCell 3, StrCell ''Toy drive'', StrCell ''School'', StrCell ''2023-12-24'', StrCell ''1.5'']])]
   \<and> \<not> sorted (map (timeValue exampleRuntime)
                  (filter (\<lambda>e. dateParse exampleRuntime (date e) \<noteq> None)
                     (sortedEvents exampleRuntime undatedEvents dana)))"
proof -
  have a: "map (\<lambda>e. dateParse exampleRuntime (date e)) (volunteerEvents undatedEvents dana)
     = [Some 1709251200000, None, Some 1703376000000]" by code_simp
  have b: "fst (syncToGoogleSheets exampleRuntime (Some exampleSheetsConfig) [dana] undatedEvents
           quietRemote) = Success 1 3" by code_simp
  have c: "tl (writes (calls (snd (syncToGoogleSheets exampleRuntime (Some exampleSheetsConfig) [dana]
                                undatedEvents quietRemote))))
     = [(''Volunteer - Dana!A1'',
         [[StrCell ''ID'', StrCell ''Event'', StrCell ''Location'', StrCell ''Date'', StrCell ''Hours''],
          [NumCell 1, StrCell ''Food drive'', StrCell ''Hall'', StrCell ''2024-03-01'', StrCell ''2''],
          [NumCell 2, StrCell ''Planning'', StrCell ''Office'', StrCell ''TBD'', StrCell ''1''],
          [NumCell 3, StrCell ''Toy drive'', StrCell ''School'', StrCell ''2023-12-24'', StrCell ''1.5'']])]"
    by code_simp
  have d: "\<not> sorted (map (timeValue exampleRuntime)
                  (filter (\<lambda>e. dateParse exampleRuntime (date e) \<noteq> None)
                     (sortedEvents exampleRuntime undatedEvents dana)))" by code_simp
  from a b c d show ?thesis by blast
qed

text \<open>
  C3 (amended): a volunteer without matching events gets no individual worksheet and no
  request of any kind; a volunteer with matching events gets one worksheet, titled from
  the name, with one row for each matching event, row \<open>i\<close> carrying the display ID
  \<open>i + 1\<close>, so the IDs are \<open>1..M\<close> for the \<open>M\<close> events of that volunteer; and when the
  dates of these events all parse, the rows are in ascending order of the time values,
  events of equal time value in their stored order. On the remote: the requests of a sync
  are an initial part of, and in a sync that succeeds exactly, the requests for the
  summary worksheet followed by those for the worksheet of each sorted volunteer with
  events (read, add if the title is new, clear, write), and the writes after the first
  are these worksheets with such rows.
\<close>

theorem individual_sheet_per_volunteer_with_events:
  "volunteerEvents es v = filter (\<lambda>e. volunteerId e = volunteer.id v) es
   \<and> (volunteerEvents es v = [] \<longrightarrow> individualSheet rt es v = None)
   \<and> (volunteerEvents es v \<noteq> [] \<longrightarrow>
        individualSheet rt es v =
          Some (volunteerSheetName (volunteer.name v), eventsHeader, volunteerEventsData rt es v))
   \<and> map hd (volunteerEventsData rt es v) = map NumCell [1..<length (volunteerEvents es v) + 1]
   \<and> mset (map tl (volunteerEventsData rt es v)) = mset (map eventCells (volunteerEvents es v))
   \<and> ((\<forall>e\<in>set es. volunteerId e = volunteer.id v \<longrightarrow> dateParse rt (date e) \<noteq> None) \<longrightarrow>
        map tl (volunteerEventsData rt es v) = map eventCells (sortedEvents rt es v)
        \<and> mset (sortedEvents rt es v) = mset (volunteerEvents es v)
        \<and> sorted_wrt (\<lambda>a b. the (dateParse rt (date a)) \<le> the (dateParse rt (date b)))
            (sortedEvents rt es v)
        \<and> sortedEvents rt es v
            = sort_key (\<lambda>e. the (dateParse rt (date e))) (volunteerEvents es v))
   \<and> (\<forall>cfg vs r res r' c sid.
         syncToGoogleSheets rt cfg vs es r = (res, r') \<and> cfg = Some c \<and> spreadsheetId c = Some sid \<longrightarrow>
         (let withEvents = filter (\<lambda>u. volunteerEvents es u \<noteq> []) (sortedVolunteers rt vs);
              requests = sheetsRequests (titles r) sid
                (''Volunteers'' # map (\<lambda>u. volunteerSheetName (volunteer.name u)) withEvents)
          in \<exists>qs. calls r' = calls r @ qs
               \<and> prefix (map withoutRows qs) requests
               \<and> (\<forall>vc ec. res = Success vc ec \<longrightarrow>
                     map withoutRows qs = requests
                     \<and> list_all2
                         (\<lambda>w u. fst w = volunteerSheetName (volunteer.name u) @ ''!A1''
                                \<and> (\<exists>data. snd w = eventsHeader # data
                                      \<and> listsEvents rt (volunteerEvents es u) data))
                         (tl (writes qs)) withEvents)))"
proof -
  let ?parsed = "\<forall>e\<in>set es. volunteerId e = volunteer.id v \<longrightarrow> dateParse rt (date e) \<noteq> None"
  have a: "volunteerEvents es v = filter (\<lambda>e. volunteerId e = volunteer.id v) es"
    by (simp add: volunteerEvents_def)
  have b: "volunteerEvents es v = [] \<longrightarrow> individualSheet rt es v = None"
    by (simp add: individualSheet_def)
  have c: "volunteerEvents es v \<noteq> [] \<longrightarrow>
        individualSheet rt es v =
          Some (volunteerSheetName (volunteer.name v), eventsHeader, volunteerEventsData rt es v)"
    by (simp add: individualSheet_def)
  have d: "mset (map tl (volunteerEventsData rt es v)) = mset (map eventCells (volunteerEvents es v))"
    by (simp only: volunteerEventsData_cells mset_map mset_sortedEvents)
  have e: "?parsed \<longrightarrow>
        map tl (volunteerEventsData rt es v) = map eventCells (sortedEvents rt es v)
        \<and> mset (sortedEvents rt es v) = mset (volunteerEvents es v)
        \<and> sorted_wrt (\<lambda>a b. the (dateParse rt (date a)) \<le> the (dateParse rt (date b)))
            (sortedEvents rt es v)
        \<and> sortedEvents rt es v
            = sort_key (\<lambda>e. the (dateParse rt (date e))) (volunteerEvents es v)"
  proof
    assume p: ?parsed
    have k: "timeValue rt = (\<lambda>e. the (dateParse rt (date e)))"
      by (rule ext) (simp add: timeValue_def)
    from sortedEvents_sort_key [OF p]
    have s: "sortedEvents rt es v
        = sort_key (\<lambda>e. the (dateParse rt (date e))) (volunteerEvents es v)"
      by (simp only: k)
    have "sorted (map (\<lambda>e. the (dateParse rt (date e))) (sortedEvents rt es v))"
      by (simp only: s sorted_sort_key)
    then have "sorted_wrt (\<lambda>a b. the (dateParse rt (date a)) \<le> the (dateParse rt (date b)))
            (sortedEvents rt es v)"
      by (simp only: sorted_wrt_map)
    with s volunteerEventsData_cells [of rt es v] mset_sortedEvents [of rt es v]
    show "map tl (volunteerEventsData rt es v) = map eventCells (sortedEvents rt es v)
        \<and> mset (sortedEvents rt es v) = mset (volunteerEvents es v)
        \<and> sorted_wrt (\<lambda>a b. the (dateParse rt (date a)) \<le> the (dateParse rt (date b)))
            (sortedEvents rt es v)
        \<and> sortedEvents rt es v
            = sort_key (\<lambda>e. the (dateParse rt (date e))) (volunteerEvents es v)"
      by blast
  qed
  have g: "let withEvents = filter (\<lambda>u. volunteerEvents es u \<noteq> []) (sortedVolunteers rt vs);
              requests = sheetsRequests (titles r) sid
                (''Volunteers'' # map (\<lambda>u. volunteerSheetName (volunteer.name u)) withEvents)
          in \<exists>qs. calls r' = calls r @ qs
               \<and> prefix (map withoutRows qs) requests
               \<and> (\<forall>vc ec. res = Success vc ec \<longrightarrow>
                     map withoutRows qs = requests
                     \<and> list_all2
                         (\<lambda>w u. fst w = volunteerSheetName (volunteer.name u) @ ''!A1''
                                \<and> (\<exists>data. snd w = eventsHeader # data
                                      \<and> listsEvents rt (volunteerEvents es u) data))
                         (tl (writes qs)) withEvents)"
    if run: "syncToGoogleSheets rt cfg vs es r = (res, r')"
      and cfg: "cfg = Some c" "spreadsheetId c = Some sid"
    for cfg vs r res r' c sid
  proof -
    let ?us = "filter (\<lambda>u. volunteerEvents es u \<noteq> []) (sortedVolunteers rt vs)"
    let ?Q = "sheetsRequests (titles r) sid
                (''Volunteers'' # map (\<lambda>u. volunteerSheetName (volunteer.name u)) ?us)"
    from sync_log [OF run cfg] obtain qs where q: "calls r' = calls r @ qs"
      and p: "prefix (map withoutRows qs) ?Q"
      and s: "\<forall>vc ec. res = Success vc ec \<longrightarrow> map withoutRows qs = ?Q" by blast
    have rows: "list_all2
                 (\<lambda>w u. fst w = volunteerSheetName (volunteer.name u) @ ''!A1''
                        \<and> (\<exists>data. snd w = eventsHeader # data
                              \<and> listsEvents rt (volunteerEvents es u) data))
                 (tl (writes qs)) ?us"
      if "res = Success vc ec" for vc ec
    proof -
      from sync_run [OF run] obtain qs' where q': "calls r' = calls r @ qs'"
        and w: "\<forall>vc ec. res = Success vc ec \<longrightarrow> writes qs' = plannedWrites rt vs es" by blast
      from q q' have "qs' = qs" by simp
      with w that have "writes qs = plannedWrites rt vs es" by blast
      then have "tl (writes qs)
          = map (\<lambda>u. (volunteerSheetName (volunteer.name u) @ ''!A1'',
                       eventsHeader # volunteerEventsData rt es u)) ?us"
        by (simp add: plannedWrites_def individualWrites_filter)
      then show ?thesis
        by (simp add: list_all2_map1 list_all2_same volunteerEventsData_lists)
    qed
    from q p s rows show ?thesis unfolding Let_def by blast
  qed
  from a b c volunteerEventsData_ids [of rt es v] d e g show ?thesis by blast
qed

theorem individual_sheet_per_volunteer_with_events_witness:
  "volunteerEvents exampleEvents alice = []
   \<and> individualSheet exampleRuntime exampleEvents alice = None
   \<and> volunteerEvents exampleEvents bob \<noteq> []
   \<and> map (\<lambda>e. dateParse exampleRuntime (date e)) (volunteerEvents exampleEvents bob)
        = [Some 1709251200000, Some 1703376000000]
   \<and> individualSheet exampleRuntime exampleEvents bob =
        Some (''Volunteer - bob'', eventsHeader,
          [[NumCell 1, StrCell ''Toy drive'', StrCell ''School'', StrCell ''2023-12-24'', StrCell ''1.5''],
           [NumCell 2, StrCell ''Food drive'', StrCell ''Hall'', StrCell ''2024-03-01'', StrCell ''2'']])
   \<and> sorted_wrt (\<lambda>a b. the (dateParse exampleRuntime (date a)) \<le> the (dateParse exampleRuntime (date b)))
        (sortedEvents exampleRuntime exampleEvents bob)
   \<and> sortedEvents exampleRuntime exampleEvents bob
        = sort_key (\<lambda>e. the (dateParse exampleRuntime (date e))) (volunteerEvents exampleEvents bob)
   \<and> fst (syncToGoogleSheets exampleRuntime (Some exampleSheetsConfig) exampleVolunteers exampleEvents
           quietRemote) = Success 3 4
   \<and> map withoutRows (calls (snd (syncToGoogleSheets exampleRuntime (Some exampleSheetsConfig)
        exampleVolunteers exampleEvents quietRemote)))
      = [GetSpreadsheet ''sheet-1'', AddSheet ''sheet-1'' ''Volunteers'',
         ClearValues ''sheet-1'' ''Volunteers'', UpdateValues ''sheet-1'' ''Volunteers!A1'' [],
         GetSpreadsheet ''sheet-1'', AddSheet ''sheet-1'' ''Volunteer - bob'',
         ClearValues ''sheet-1'' ''Volunteer - bob'',
         UpdateValues ''sheet-1'' ''Volunteer - bob!A1'' [],
         GetSpreadsheet ''sheet-1'', AddSheet ''sheet-1'' ''Volunteer - Carol'',
         ClearValues ''sheet-1'' ''Volunteer - Carol'',
         UpdateValues ''sheet-1'' ''Volunteer - Carol!A1'' []]
   \<and> (\<exists>qs. calls (snd (syncToGoogleSheets exampleRuntime (Some exampleSheetsConfig) exampleVolunteers
                          exampleEvents quietRemote)) = calls quietRemote @ qs
          \<and> map withoutRows qs =
              sheetsRequests (titles quietRemote) ''sheet-1''
                (''Volunteers'' # map (\<lambda>u. volunteerSheetName (volunteer.name u))
                   (filter (\<lambda>u. volunteerEvents exampleEvents u \<noteq> [])
                      (sortedVolunteers exampleRuntime exampleVolunteers)))
          \<and> list_all2
              (\<lambda>w u. fst w = volunteerSheetName (volunteer.name u) @ ''!A1''
                     \<and> (\<exists>data. snd w = eventsHeader # data
                           \<and> listsEvents exampleRuntime (volunteerEvents exampleEvents u) data))
              (tl (writes qs))
              (filter (\<lambda>u. volunteerEvents exampleEvents u \<noteq> [])
                 (sortedVolunteers exampleRuntime exampleVolunteers)))"
proof -
  let ?run = "syncToGoogleSheets exampleRuntime (Some exampleSheetsConfig) exampleVolunteers
                exampleEvents quietRemote"
  note A = individual_sheet_per_volunteer_with_events [of exampleEvents alice exampleRuntime]
  note B = individual_sheet_per_volunteer_with_events [of exampleEvents bob exampleRuntime]
  have a0: "volunteerEvents exampleEvents alice = []" by code_simp
  with A have a1: "individualSheet exampleRuntime exampleEvents alice = None" by blast
  have b0: "volunteerEvents exampleEvents bob \<noteq> []" by code_simp
  have b1: "\<forall>e\<in>set exampleEvents. volunteerId e = volunteer.id bob \<longrightarrow>
         dateParse exampleRuntime (date e) \<noteq> None" by code_simp
  have b2: "individualSheet exampleRuntime exampleEvents bob =
        Some (''Volunteer - bob'', eventsHeader,
          [[NumCell 1, StrCell ''Toy drive'', StrCell ''School'', StrCell ''2023-12-24'', StrCell ''1.5''],
           [NumCell 2, StrCell ''Food drive'', StrCell ''Hall'', StrCell ''2024-03-01'', StrCell ''2'']])"
    by code_simp
  from B b1 have b3: "sorted_wrt (\<lambda>a b. the (dateParse exampleRuntime (date a)) \<le> the (dateParse exampleRuntime (date b)))
        (sortedEvents exampleRuntime exampleEvents bob)" by blast
  from B b1 have b5: "sortedEvents exampleRuntime exampleEvents bob
        = sort_key (\<lambda>e. the (dateParse exampleRuntime (date e))) (volunteerEvents exampleEvents bob)"
    by blast
  have f: "fst ?run = Success 3 4" by code_simp
  then have e: "?run = (Success 3 4, snd ?run)" by (simp add: prod_eq_iff)
  have c: "spreadsheetId exampleSheetsConfig = Some ''sheet-1''" by code_simp
  have t: "map withoutRows (calls (snd ?run))
      = [GetSpreadsheet ''sheet-1'', AddSheet ''sheet-1'' ''Volunteers'',
         ClearValues ''sheet-1'' ''Volunteers'', UpdateValues ''sheet-1'' ''Volunteers!A1'' [],
         GetSpreadsheet ''sheet-1'', AddSheet ''sheet-1'' ''Volunteer - bob'',
         ClearValues ''sheet-1'' ''Volunteer - bob'',
         UpdateValues ''sheet-1'' ''Volunteer - bob!A1'' [],
         GetSpreadsheet ''sheet-1'', AddSheet ''sheet-1'' ''Volunteer - Carol'',
         ClearValues ''sheet-1'' ''Volunteer - Carol'',
         UpdateValues ''sheet-1'' ''Volunteer - Carol!A1'' []]" by code_simp
  from B have "\<forall>cfg vs r res r' c sid.
         syncToGoogleSheets exampleRuntime cfg vs exampleEvents r = (res, r') \<and> cfg = Some c
           \<and> spreadsheetId c = Some sid \<longrightarrow>
         (\<exists>qs. calls r' = calls r @ qs
               \<and> prefix (map withoutRows qs)
                   (sheetsRequests (titles r) sid
                      (''Volunteers'' # map (\<lambda>u. volunteerSheetName (volunteer.name u))
                         (filter (\<lambda>u. volunteerEvents exampleEvents u \<noteq> [])
                            (sortedVolunteers exampleRuntime vs))))
               \<and> (\<forall>vc ec. res = Success vc ec \<longrightarrow>
                     map withoutRows qs =
                       sheetsRequests (titles r) sid
                         (''Volunteers'' # map (\<lambda>u. volunteerSheetName (volunteer.name u))
                            (filter (\<lambda>u. volunteerEvents exampleEvents u \<noteq> [])
                               (sortedVolunteers exampleRuntime vs)))
                     \<and> list_all2
                         (\<lambda>w u. fst w = volunteerSheetName (volunteer.name u) @ ''!A1''
                                \<and> (\<exists>data. snd w = eventsHeader # data
                                      \<and> listsEvents exampleRuntime (volunteerEvents exampleEvents u) data))
                         (tl (writes qs))
                         (filter (\<lambda>u. volunteerEvents exampleEvents u \<noteq> [])
                            (sortedVolunteers exampleRuntime vs))))"
    unfolding Let_def by (elim conjE)
  from this [rule_format, of "Some exampleSheetsConfig" exampleVolunteers quietRemote
               "Success 3 4" "snd ?run" exampleSheetsConfig "''sheet-1''"] e c
  have w: "\<exists>qs. calls (snd ?run) = calls quietRemote @ qs
          \<and> map withoutRows qs =
              sheetsRequests (titles quietRemote) ''sheet-1''
                (''Volunteers'' # map (\<lambda>u. volunteerSheetName (volunteer.name u))
                   (filter (\<lambda>u. volunteerEvents exampleEvents u \<noteq> [])
                      (sortedVolunteers exampleRuntime exampleVolunteers)))
          \<and> list_all2
              (\<lambda>w u. fst w = volunteerSheetName (volunteer.name u) @ ''!A1''
                     \<and> (\<exists>data. snd w = eventsHeader # data
                           \<and> listsEvents exampleRuntime (volunteerEvents exampleEvents u) data))
              (tl (writes qs))
              (filter (\<lambda>u. volunteerEvents exampleEvents u \<noteq> [])
                 (sortedVolunteers exampleRuntime exampleVolunteers))"
    by blast
  have b4: "map (\<lambda>e. dateParse exampleRuntime (date e)) (volunteerEvents exampleEvents bob)
        = [Some 1709251200000, Some 1703376000000]" by code_simp
  from a0 a1 b0 b4 b2 b3 b5 f t w show ?thesis by blast
qed

subsection \<open>The response to a failed sync\<close>

lemma stringIncludes_iff: "stringIncludes s t \<longleftrightarrow> (\<exists>ps ss. s = ps @ t @ ss)"
proof (induction s)
  case Nil
  show ?case by simp
next
  case (Cons c s)
  show ?case
  proof
    assume "stringIncludes (c # s) t"
    then consider "prefix t (c # s)" | "stringIncludes s t" by auto
    then show "\<exists>ps ss. c # s = ps @ t @ ss"
    proof cases
      case 1
      then obtain ss where "c # s = t @ ss" by (auto simp: prefix_def)
      then have "c # s = [] @ t @ ss" by simp
      then show ?thesis by blast
    next
      case 2
      with Cons.IH obtain ps ss where "s = ps @ t @ ss" by blast
      then have "c # s = (c # ps) @ t @ ss" by simp
      then show ?thesis by blast
    qed
  next
    assume "\<exists>ps ss. c # s = ps @ t @ ss"
    then obtain ps ss where eq: "c # s = ps @ t @ ss" by blast
    show "stringIncludes (c # s) t"
    proof (cases ps)
      case Nil
      with eq have "prefix t (c # s)" by (simp add: prefix_def)
      then show ?thesis by simp
    next
      case (Cons p ps')
      with eq have "s = ps' @ t @ ss" by simp
      with Cons.IH have "stringIncludes s t" by blast
      then show ?thesis by simp
    qed
  qed
qed

text \<open>
  C6, as stated, fails on the code: when the failing request's error has the empty
  message, the sync returns a failure with that message, which does not contain
  \<open>permission\<close>, and the handler answers 500 with the text \<open>Unknown error during sync\<close>
  in place of the raw message.
\<close>

theorem sync_failure_empty_message_not_carried:
  "fst (syncToGoogleSheets exampleRuntime (Some exampleSheetsConfig) exampleVolunteers exampleEvents
          (failingRemote [])) = Failure []
   \<and> \<not> stringIncludes [] ''permission''
   \<and> fst (postSyncSheets exampleRuntime exampleConfig exampleVolunteers exampleEvents
            (failingRemote []))
      = Response 500 (JObj
          [(''success'', JBool False),
           (''error'', JStr ''Unknown error during sync''),
           (''serviceEmail'', JStr ''sync@project.iam.example'')])
   \<and> JStr ''Unknown error during sync'' \<noteq> JStr []"
  by code_simp

text \<open>
  C6 (amended): when the handler has called the sync and the sync returns a failure, the
  response is a 403 exactly when the error message contains the substring \<open>permission\<close>,
  and a 500 otherwise. The 403 names the service email in its error text and in
  \<open>serviceEmail\<close>; the 500 carries the raw error message, or \<open>Unknown error during sync\<close>
  when the message is empty. The service email is the configured \<open>client_email\<close>, or the
  placeholder \<open>the service account email\<close> when none is configured.
\<close>

theorem sync_failure_response:
  assumes "config.sheetsConfig cf = Some sc" "spreadsheetId sc = Some sid" "sid \<noteq> []"
    and "syncToGoogleSheets rt (Some sc) vs es r = (Failure e, r')"
  shows "postSyncSheets rt cf vs es r =
           (if stringIncludes e ''permission''
            then Response 403 (JObj
              [(''success'', JBool False),
               (''error'', JStr
                  (''Permission denied: The service account does not have access to this spreadsheet. ''
                   @ ''Please share the spreadsheet with '' @ serviceEmail sc
                   @ '' and give it Editor permission.'')),
               (''serviceEmail'', JStr (serviceEmail sc))])
            else Response 500 (JObj
              [(''success'', JBool False),
               (''error'', JStr (if e = [] then ''Unknown error during sync'' else e)),
               (''serviceEmail'', JStr (serviceEmail sc))]), r')
         \<and> (stringIncludes e ''permission'' \<longleftrightarrow> (\<exists>ps ss. e = ps @ ''permission'' @ ss))
         \<and> serviceEmail sc =
             (case credentials sc of
                None \<Rightarrow> ''the service account email''
              | Some cr \<Rightarrow>
                  (case client_email cr of
                     None \<Rightarrow> ''the service account email''
                   | Some em \<Rightarrow> if em = [] then ''the service account email'' else em))"
proof -
  have ne: "stringIncludes e ''permission'' \<Longrightarrow> e \<noteq> []" by auto
  have "postSyncSheets rt cf vs es r = (syncResponse sc sid (length vs) (length es) (Failure e), r')"
    using assms by (simp add: postSyncSheets_def)
  then have a: "postSyncSheets rt cf vs es r =
           (if stringIncludes e ''permission''
            then Response 403 (JObj
              [(''success'', JBool False),
               (''error'', JStr
                  (''Permission denied: The service account does not have access to this spreadsheet. ''
                   @ ''Please share the spreadsheet with '' @ serviceEmail sc
                   @ '' and give it Editor permission.'')),
               (''serviceEmail'', JStr (serviceEmail sc))])
            else Response 500 (JObj
              [(''success'', JBool False),
               (''error'', JStr (if e = [] then ''Unknown error during sync'' else e)),
               (''serviceEmail'', JStr (serviceEmail sc))]), r')"
    using ne by (simp add: syncResponse_def permissionMessage_def)
  have b: "stringIncludes e ''permission'' \<longleftrightarrow> (\<exists>ps ss. e = ps @ ''permission'' @ ss)"
    by (rule stringIncludes_iff)
  have c: "serviceEmail sc =
             (case credentials sc of
                None \<Rightarrow> ''the service account email''
              | Some cr \<Rightarrow>
                  (case client_email cr of
                     None \<Rightarrow> ''the service account email''
                   | Some em \<Rightarrow> if em = [] then ''the service account email'' else em))"
    by (simp add: serviceEmail_def)
  from a b c show ?thesis by blast
qed

theorem sync_failure_response_witness:
  "syncToGoogleSheets exampleRuntime (Some exampleSheetsConfig) exampleVolunteers exampleEvents
      (failingRemote ''The caller does not have permission'')
    = (Failure ''The caller does not have permission'',
       snd (syncToGoogleSheets exampleRuntime (Some exampleSheetsConfig) exampleVolunteers exampleEvents
              (failingRemote ''The caller does not have permission'')))
   \<and> stringIncludes ''The caller does not have permission'' ''permission''
   \<and> serviceEmail exampleSheetsConfig = ''sync@project.iam.example''
   \<and> fst (postSyncSheets exampleRuntime exampleConfig exampleVolunteers exampleEvents
            (failingRemote ''The caller does not have permission''))
      = Response 403 (JObj
          [(''success'', JBool False),
           (''error'', JStr
              (''Permission denied: The service account does not have access to this spreadsheet. ''
               @ ''Please share the spreadsheet with sync@project.iam.example''
               @ '' and give it Editor permission.'')),
           (''serviceEmail'', JStr ''sync@project.iam.example'')])"
proof -
  let ?r = "failingRemote ''The caller does not have permission''"
  let ?cf = "exampleConfig"
  let ?run = "syncToGoogleSheets exampleRuntime (Some exampleSheetsConfig) exampleVolunteers
                exampleEvents ?r"
  have "fst ?run = Failure ''The caller does not have permission''" by code_simp
  then have h: "?run = (Failure ''The caller does not have permission'', snd ?run)"
    by (simp add: prod_eq_iff)
  have c: "config.sheetsConfig ?cf = Some exampleSheetsConfig"
    "spreadsheetId exampleSheetsConfig = Some ''sheet-1''" "''sheet-1'' \<noteq> []"
    by (simp_all add: exampleConfig_def exampleSheetsConfig_def)
  have i: "stringIncludes ''The caller does not have permission'' ''permission''" by code_simp
  have s: "serviceEmail exampleSheetsConfig = ''sync@project.iam.example''" by code_simp
  from sync_failure_response [OF c h] i s h show ?thesis by simp
qed

subsection \<open>Deleting a volunteer\<close>

lemma findIndex_None: "findIndex p xs = None \<longleftrightarrow> (\<forall>x\<in>set xs. \<not> p x)"
  by (induction xs) (auto split: option.splits)

lemma findIndex_Some:
  "findIndex p xs = Some i \<Longrightarrow>
     i < length xs \<and> p (xs ! i) \<and> (\<forall>u\<in>set (take i xs). \<not> p u)"
proof (induction xs arbitrary: i)
  case Nil
  then show ?case by simp
next
  case (Cons x xs)
  show ?case
  proof (cases "p x")
    case True
    with Cons.prems show ?thesis by simp
  next
    case False
    with Cons.prems obtain j where j: "findIndex p xs = Some j" "i = Suc j"
      by (auto split: option.splits)
    from Cons.IH [OF j(1)] False j(2) show ?thesis by simp
  qed
qed

text \<open>
  C8: when some stored volunteer has the id, the handler answers 200, removes the first
  volunteer with that id and leaves the volunteers before and after it as they were, and
  keeps exactly the events whose \<open>volunteerId\<close> differs from the id, in their order; when
  no stored volunteer has the id, it answers 404 and returns both arrays unchanged.
\<close>

theorem delete_volunteer_cascades:
  "((\<exists>v\<in>set volunteers. getProp v ''id'' = Some (JStr i)) \<longrightarrow>
      (\<exists>pre v post. volunteers = pre @ v # post
         \<and> getProp v ''id'' = Some (JStr i)
         \<and> (\<forall>u\<in>set pre. getProp u ''id'' \<noteq> Some (JStr i))
         \<and> deleteVolunteer i volunteers events =
             (Response 200 (JObj [(''success'', JBool True)]),
              pre @ post,
              filter (\<lambda>e. getProp e ''volunteerId'' \<noteq> Some (JStr i)) events)))
   \<and> ((\<forall>v\<in>set volunteers. getProp v ''id'' \<noteq> Some (JStr i)) \<longrightarrow>
        deleteVolunteer i volunteers events =
          (Response 404 (JObj [(''error'', JStr ''Volunteer not found'')]), volunteers, events))"
proof (intro conjI impI)
  assume "\<forall>v\<in>set volunteers. getProp v ''id'' \<noteq> Some (JStr i)"
  then have "findIndex (\<lambda>v. getProp v ''id'' = Some (JStr i)) volunteers = None"
    by (simp add: findIndex_None)
  then show "deleteVolunteer i volunteers events =
          (Response 404 (JObj [(''error'', JStr ''Volunteer not found'')]), volunteers, events)"
    by (simp add: deleteVolunteer_def)
next
  assume "\<exists>v\<in>set volunteers. getProp v ''id'' = Some (JStr i)"
  then have "findIndex (\<lambda>v. getProp v ''id'' = Some (JStr i)) volunteers \<noteq> None"
    by (simp add: findIndex_None)
  then obtain k where k: "findIndex (\<lambda>v. getProp v ''id'' = Some (JStr i)) volunteers = Some k"
    by auto
  from findIndex_Some [OF k]
  have lt: "k < length volunteers" and hit: "getProp (volunteers ! k) ''id'' = Some (JStr i)"
    and before: "\<forall>u\<in>set (take k volunteers). getProp u ''id'' \<noteq> Some (JStr i)"
    by simp_all
  have split: "volunteers = take k volunteers @ volunteers ! k # drop (Suc k) volunteers"
    using lt by (rule id_take_nth_drop)
  have del: "deleteVolunteer i volunteers events =
             (Response 200 (JObj [(''success'', JBool True)]),
              take k volunteers @ drop (Suc k) volunteers,
              filter (\<lambda>e. getProp e ''volunteerId'' \<noteq> Some (JStr i)) events)"
    using k by (simp add: deleteVolunteer_def splice1_def)
  from split hit before del
  show "\<exists>pre v post. volunteers = pre @ v # post
         \<and> getProp v ''id'' = Some (JStr i)
         \<and> (\<forall>u\<in>set pre. getProp u ''id'' \<noteq> Some (JStr i))
         \<and> deleteVolunteer i volunteers events =
             (Response 200 (JObj [(''success'', JBool True)]),
              pre @ post,
              filter (\<lambda>e. getProp e ''volunteerId'' \<noteq> Some (JStr i)) events)"
    by blast
qed

theorem delete_volunteer_cascades_witness:
  "deleteVolunteer ''7f3a''
      [[(''id'', JStr ''c41d''), (''name'', JStr ''Alice'')],
       [(''id'', JStr ''7f3a''), (''name'', JStr ''bob'')],
       [(''id'', JStr ''09be''), (''name'', JStr ''Carol'')]]
      [[(''id'', JStr ''e1''), (''volunteerId'', JStr ''7f3a''), (''hours'', JStr ''2'')],
       [(''id'', JStr ''e2''), (''volunteerId'', JStr ''09be'')],
       [(''id'', JStr ''e3''), (''volunteerId'', JStr ''7f3a''), (''hours'', JStr ''1.5'')]]
    = (Response 200 (JObj [(''success'', JBool True)]),
       [[(''id'', JStr ''c41d''), (''name'', JStr ''Alice'')],
        [(''id'', JStr ''09be''), (''name'', JStr ''Carol'')]],
       [[(''id'', JStr ''e2''), (''volunteerId'', JStr ''09be'')]])
   \<and> deleteVolunteer ''ffff''
      [[(''id'', JStr ''c41d''), (''name'', JStr ''Alice'')]]
      [[(''id'', JStr ''e2''), (''volunteerId'', JStr ''09be'')]]
    = (Response 404 (JObj [(''error'', JStr ''Volunteer not found'')]),
       [[(''id'', JStr ''c41d''), (''name'', JStr ''Alice'')]],
       [[(''id'', JStr ''e2''), (''volunteerId'', JStr ''09be'')]])"
proof -
  let ?vs = "[[(''id'', JStr ''c41d''), (''name'', JStr ''Alice'')],
       [(''id'', JStr ''7f3a''), (''name'', JStr ''bob'')],
       [(''id'', JStr ''09be''), (''name'', JStr ''Carol'')]]"
  let ?es = "[[(''id'', JStr ''e1''), (''volunteerId'', JStr ''7f3a''), (''hours'', JStr ''2'')],
       [(''id'', JStr ''e2''), (''volunteerId'', JStr ''09be'')],
       [(''id'', JStr ''e3''), (''volunteerId'', JStr ''7f3a''), (''hours'', JStr ''1.5'')]]"
  have h1: "\<exists>v\<in>set ?vs. getProp v ''id'' = Some (JStr ''7f3a'')"
    by (simp add: getProp_def)
  from delete_volunteer_cascades [of ?vs "''7f3a''" ?es] h1
  obtain pre v post where d: "?vs = pre @ v # post" "getProp v ''id'' = Some (JStr ''7f3a'')"
    "\<forall>u\<in>set pre. getProp u ''id'' \<noteq> Some (JStr ''7f3a'')"
    "deleteVolunteer ''7f3a'' ?vs ?es =
       (Response 200 (JObj [(''success'', JBool True)]), pre @ post,
        filter (\<lambda>e. getProp e ''volunteerId'' \<noteq> Some (JStr ''7f3a'')) ?es)"
    by blast
  have a: "deleteVolunteer ''7f3a'' ?vs ?es =
       (Response 200 (JObj [(''success'', JBool True)]),
       [[(''id'', JStr ''c41d''), (''name'', JStr ''Alice'')],
        [(''id'', JStr ''09be''), (''name'', JStr ''Carol'')]],
       [[(''id'', JStr ''e2''), (''volunteerId'', JStr ''09be'')]])"
    by (simp add: deleteVolunteer_def splice1_def getProp_def)
  let ?vs2 = "[[(''id'', JStr ''c41d''), (''name'', JStr ''Alice'')]]"
  let ?es2 = "[[(''id'', JStr ''e2''), (''volunteerId'', JStr ''09be'')]]"
  have h2: "\<forall>v\<in>set ?vs2. getProp v ''id'' \<noteq> Some (JStr ''ffff'')"
    by (simp add: getProp_def)
  from delete_volunteer_cascades [of ?vs2 "''ffff''" ?es2] h2
  have b: "deleteVolunteer ''ffff'' ?vs2 ?es2 =
       (Response 404 (JObj [(''error'', JStr ''Volunteer not found'')]), ?vs2, ?es2)"
    by blast
  from a b show ?thesis by blast
qed

subsection \<open>Creating records\<close>

text \<open>
  What both handlers do for every body they accept: the store grows by the new record at
  its end, the record's \<open>createdAt\<close> is the server's clock reading, and its \<open>id\<close> is the
  generated one when the body brings no \<open>id\<close> of its own.
\<close>

lemma map_of_foldl_update:
  "map_of (foldl (\<lambda>ob (k, v). AList.update k v ob) t es) k =
     (case map_of (rev es) k of Some v \<Rightarrow> Some v | None \<Rightarrow> map_of t k)"
proof (induction es arbitrary: t)
  case Nil
  show ?case by simp
next
  case (Cons e es)
  obtain k' v' where e: "e = (k', v')" by (cases e)
  show ?case
    by (simp add: Cons.IH e update_conv' map_add_def split: option.splits)
qed

lemma getProp_spreadInto:
  "getProp (spreadInto t b) k =
     (case map_of (rev (ownEntries b)) k of Some v \<Rightarrow> Some v | None \<Rightarrow> getProp t k)"
  by (simp add: getProp_def spreadInto_def map_of_foldl_update split: option.splits)

lemma map_of_rev_None: "map_of (rev es) k = None \<longleftrightarrow> k \<notin> fst ` set es"
  by (simp add: map_of_eq_None_iff)

lemma new_records_append_with_server_createdAt:
  "postVolunteers newId now (Some b) volunteers =
     (Response 201 (JObj (newVolunteer newId now b)), volunteers @ [newVolunteer newId now b])
   \<and> getProp (newVolunteer newId now b) ''createdAt'' = Some (JStr now)
   \<and> (''id'' \<notin> fst ` set (ownEntries b) \<longrightarrow>
        getProp (newVolunteer newId now b) ''id'' = Some (JStr newId))
   \<and> (b \<noteq> JNull \<longrightarrow>
        postEvents newId dateNow now (Some b) events =
          (Response 201 (JObj (newEvent newId dateNow now b)), events @ [newEvent newId dateNow now b]))
   \<and> getProp (newEvent newId dateNow now b) ''createdAt'' = Some (JStr now)
   \<and> (''id'' \<notin> fst ` set (ownEntries b) \<longrightarrow>
        getProp (newEvent newId dateNow now b) ''id'' = Some (JStr newId))"
  by (simp add: postVolunteers_def postEvents_def newVolunteer_def newEvent_def getProp_def
      update_conv' getProp_spreadInto [unfolded getProp_def] map_of_rev_None [THEN iffD2])

text \<open>
  C9 fails on the code at a request body with an \<open>id\<close> key: the object literal puts the
  generated id before the spread of the body, so that the body's \<open>id\<close> replaces it, while
  \<open>createdAt\<close>, written after the spread, is the server's. Both handlers store the id the
  client chose, here one that a stored volunteer already has.
\<close>

theorem post_body_id_overrides_generated_id:
  "postVolunteers ''3b1f-generated'' ''2024-05-01T10:00:00.000Z''
      (Some (JObj [(''id'', JStr ''c41d''), (''name'', JStr ''Mallory'')]))
      [[(''id'', JStr ''c41d''), (''name'', JStr ''Alice''), (''createdAt'', JStr ''2024-01-01T09:00:00.000Z'')]]
    = (Response 201 (JObj
         [(''id'', JStr ''c41d''), (''name'', JStr ''Mallory''),
          (''createdAt'', JStr ''2024-05-01T10:00:00.000Z'')]),
       [[(''id'', JStr ''c41d''), (''name'', JStr ''Alice''), (''createdAt'', JStr ''2024-01-01T09:00:00.000Z'')],
        [(''id'', JStr ''c41d''), (''name'', JStr ''Mallory''),
         (''createdAt'', JStr ''2024-05-01T10:00:00.000Z'')]])
   \<and> postEvents ''9d2e-generated'' ''2024-05-01T10:00:00.000Z'' ''2024-05-01T10:00:00.001Z''
      (Some (JObj [(''id'', JStr ''e1''), (''volunteerId'', JStr ''c41d''), (''createdAt'', JStr ''1999'')]))
      []
    = (Response 201 (JObj
         [(''id'', JStr ''e1''), (''volunteerId'', JStr ''c41d''),
          (''createdAt'', JStr ''2024-05-01T10:00:00.001Z''),
          (''date'', JStr ''2024-05-01T10:00:00.000Z'')]),
       [[(''id'', JStr ''e1''), (''volunteerId'', JStr ''c41d''),
         (''createdAt'', JStr ''2024-05-01T10:00:00.001Z''),
         (''date'', JStr ''2024-05-01T10:00:00.000Z'')]])"
  by (simp add: postVolunteers_def newVolunteer_def postEvents_def newEvent_def spreadInto_def
      ownEntries_def propOf_def getProp_def truthy_def)

subsection \<open>Total hours\<close>

text \<open>
  When the \<open>hours\<close> of every matching event is missing, empty or a number, the total is
  the sum of the numbers over exactly the matching events.
\<close>

lemma foldl_jsadd_Fin:
  assumes "\<forall>e\<in>set xs. hoursNumber (hours e) = Fin (q e)"
  shows "foldl (\<lambda>sum e. jsadd sum (hoursNumber (hours e))) (Fin a) xs = Fin (a + (\<Sum>e\<leftarrow>xs. q e))"
  using assms by (induction xs arbitrary: a) (simp_all add: add.assoc)

lemma totalHours_finite:
  assumes "\<forall>e\<in>set es. volunteerId e = volunteer.id v \<longrightarrow> hoursNumber (hours e) = Fin (q e)"
  shows "totalHours es v = Fin (\<Sum>e\<leftarrow>filter (\<lambda>e. volunteerId e = volunteer.id v) es. q e)"
proof -
  have "\<forall>e\<in>set (volunteerEvents es v). hoursNumber (hours e) = Fin (q e)"
    using assms by (simp add: volunteerEvents_def)
  from foldl_jsadd_Fin [OF this, of 0] show ?thesis
    by (simp add: totalHours_def volunteerEvents_def)
qed

lemma hoursNumber_missing: "hoursNumber None = Fin 0" "hoursNumber (Some []) = Fin 0"
  by (simp_all add: hoursNumber_def)

text \<open>
  C2 fails on the code at an \<open>hours\<close> string with no numeric prefix: \<^verbatim>\<open>event.hours || 0\<close>
  replaces only a missing or empty value, \<^verbatim>\<open>parseFloat\<close> of the string is \<open>NaN\<close>, the sum
  is \<open>NaN\<close>, and the cell reads \<open>NaN\<close> where the claim gives \<open>2.00\<close>.
\<close>

theorem unparsable_hours_make_total_NaN:
  "parseFloat ''abc'' = NaN
   \<and> totalHours
        [\<lparr>id = ''e1'', volunteerId = ''c41d'', name = ''Food drive'', location = ''Hall'',
          date = ''2024-03-01'', hours = Some ''2''\<rparr>,
         \<lparr>id = ''e2'', volunteerId = ''c41d'', name = ''Cleanup'', location = ''Park'',
          date = ''2024-01-05'', hours = Some ''abc''\<rparr>] alice = NaN
   \<and> volunteersData exampleRuntime [alice]
        [\<lparr>id = ''e1'', volunteerId = ''c41d'', name = ''Food drive'', location = ''Hall'',
          date = ''2024-03-01'', hours = Some ''2''\<rparr>,
         \<lparr>id = ''e2'', volunteerId = ''c41d'', name = ''Cleanup'', location = ''Park'',
          date = ''2024-01-05'', hours = Some ''abc''\<rparr>]
      = [[NumCell 1, StrCell ''Alice'', StrCell ''555-0101'', StrCell ''alice@example.org'',
          StrCell ''NaN'']]"
  by code_simp

end
